theory Spec2Isabelle
  imports Main "HOL-Library.Word" "HOL-Library.AList" "HOL-Library.Product_Lexorder"
begin

unbundle bit_operations_syntax

section \<open>Python values used by the file system\<close>

text \<open>
  Byte strings (\<open>bytes\<close>) are lists of 8-bit words. A Python \<open>str\<close> is a \<open>string\<close>;
  a file name is held as the bytes of its UTF-8 form, which is what \<open>filename.encode()\<close>
  hands to the hash. A \<open>dict\<close> is an association list with distinct keys kept in insertion
  order: \<open>map_of\<close> reads it, \<open>AList.update\<close> writes it (an existing key keeps its place,
  a new key goes to the end), \<open>length\<close> is \<open>len\<close>.
\<close>

type_synonym bytes = "8 word list"

datatype py_error = IndexError | ValueError

subsection \<open>\<open>str(i)\<close> and \<open>int(s)\<close> on indices\<close>

definition digit_char :: "nat \<Rightarrow> char" where
  "digit_char d = char_of (48 + d)"

fun str_nat :: "nat \<Rightarrow> string" where
  "str_nat n = (if n < 10 then [digit_char n] else str_nat (n div 10) @ [digit_char (n mod 10)])"

declare str_nat.simps [simp del]

definition is_digit :: "char \<Rightarrow> bool" where
  "is_digit c = (48 \<le> (of_char c :: nat) \<and> (of_char c :: nat) \<le> 57)"

definition digit_val :: "char \<Rightarrow> nat" where
  "digit_val c = of_char c - 48"

text \<open>
  \<open>int(s)\<close> is modelled on plain decimal digit strings, the only arguments the program
  builds (they come from \<open>str(i)\<close> of a list index). Any other text is reported as
  \<open>ValueError\<close>; signs, blanks and digit separators, which Python would also accept, never
  occur in a chunk id.
\<close>

definition py_int :: "string \<Rightarrow> py_error + nat" where
  "py_int s = (if s \<noteq> [] \<and> list_all is_digit s
               then Inr (foldl (\<lambda>acc c. 10 * acc + digit_val c) 0 s)
               else Inl ValueError)"

subsection \<open>\<open>s.split(sep)\<close>\<close>

text \<open>
  Left-to-right search for non-overlapping occurrences of a non-empty separator. The
  program only ever splits on the literal \<open>'_chunk_'\<close>.
\<close>

function split_acc :: "string \<Rightarrow> string \<Rightarrow> string \<Rightarrow> string list" where
  "split_acc sep acc [] = [rev acc]"
| "split_acc sep acc (c # cs) =
     (if sep \<noteq> [] \<and> take (length sep) (c # cs) = sep
      then rev acc # split_acc sep [] (drop (length sep) (c # cs))
      else split_acc sep (c # acc) cs)"
  by pat_completeness auto
termination
  by (relation "measure (\<lambda>(sep, acc, s). length s)") auto

definition py_split :: "string \<Rightarrow> string \<Rightarrow> string list" where
  "py_split s sep = split_acc sep [] s"

subsection \<open>\<open>range(0, n, step)\<close> and slices\<close>

definition py_range_step :: "nat \<Rightarrow> nat \<Rightarrow> nat list" where
  "py_range_step n step = map (\<lambda>k. k * step) [0 ..< (n + step - 1) div step]"

definition py_slice :: "'a list \<Rightarrow> nat \<Rightarrow> nat \<Rightarrow> 'a list" where
  "py_slice xs i j = take (j - i) (drop i xs)"

section \<open>\<open>hashlib.sha256(...).hexdigest()\<close>\<close>

text \<open>SHA-256 as in FIPS 180-4, on byte strings, with the lower-case hexadecimal digest.\<close>

type_synonym w32 = "32 word"

text \<open>The 64 round constants, eight to a row.\<close>

definition sha_K :: "w32 list" where
  "sha_K = concat [
    [0x428a2f98, 0x71374491, 0xb5c0fbcf, 0xe9b5dba5, 0x3956c25b, 0x59f111f1, 0x923f82a4, 0xab1c5ed5],
    [0xd807aa98, 0x12835b01, 0x243185be, 0x550c7dc3, 0x72be5d74, 0x80deb1fe, 0x9bdc06a7, 0xc19bf174],
    [0xe49b69c1, 0xefbe4786, 0x0fc19dc6, 0x240ca1cc, 0x2de92c6f, 0x4a7484aa, 0x5cb0a9dc, 0x76f988da],
    [0x983e5152, 0xa831c66d, 0xb00327c8, 0xbf597fc7, 0xc6e00bf3, 0xd5a79147, 0x06ca6351, 0x14292967],
    [0x27b70a85, 0x2e1b2138, 0x4d2c6dfc, 0x53380d13, 0x650a7354, 0x766a0abb, 0x81c2c92e, 0x92722c85],
    [0xa2bfe8a1, 0xa81a664b, 0xc24b8b70, 0xc76c51a3, 0xd192e819, 0xd6990624, 0xf40e3585, 0x106aa070],
    [0x19a4c116, 0x1e376c08, 0x2748774c, 0x34b0bcb5, 0x391c0cb3, 0x4ed8aa4a, 0x5b9cca4f, 0x682e6ff3],
    [0x748f82ee, 0x78a5636f, 0x84c87814, 0x8cc70208, 0x90befffa, 0xa4506ceb, 0xbef9a3f7, 0xc67178f2]]"

definition sha_H0 :: "w32 list" where
  "sha_H0 = [0x6a09e667, 0xbb67ae85, 0x3c6ef372, 0xa54ff53a,
             0x510e527f, 0x9b05688c, 0x1f83d9ab, 0x5be0cd19]"

definition sha_pad :: "bytes \<Rightarrow> bytes" where
  "sha_pad m =
     (let l = length m;
          bits = (word_of_nat (8 * l) :: 64 word)
      in m @ [0x80] @ replicate ((119 - l mod 64) mod 64) 0
           @ map (\<lambda>i. ucast (drop_bit (8 * (7 - i)) bits)) [0 ..< 8])"

definition be32 :: "bytes \<Rightarrow> w32" where
  "be32 bs = foldl (\<lambda>acc b. push_bit 8 acc OR ucast b) 0 bs"

definition sha_words :: "bytes \<Rightarrow> w32 list" where
  "sha_words block = map (\<lambda>i. be32 (take 4 (drop (4 * i) block))) [0 ..< 16]"

definition ssig0 :: "w32 \<Rightarrow> w32" where
  "ssig0 x = word_rotr 7 x XOR word_rotr 18 x XOR drop_bit 3 x"

definition ssig1 :: "w32 \<Rightarrow> w32" where
  "ssig1 x = word_rotr 17 x XOR word_rotr 19 x XOR drop_bit 10 x"

definition bsig0 :: "w32 \<Rightarrow> w32" where
  "bsig0 x = word_rotr 2 x XOR word_rotr 13 x XOR word_rotr 22 x"

definition bsig1 :: "w32 \<Rightarrow> w32" where
  "bsig1 x = word_rotr 6 x XOR word_rotr 11 x XOR word_rotr 25 x"

definition sha_ch :: "w32 \<Rightarrow> w32 \<Rightarrow> w32 \<Rightarrow> w32" where
  "sha_ch x y z = (x AND y) XOR (NOT x AND z)"

definition sha_maj :: "w32 \<Rightarrow> w32 \<Rightarrow> w32 \<Rightarrow> w32" where
  "sha_maj x y z = (x AND y) XOR (x AND z) XOR (y AND z)"

text \<open>The message schedule, extended one word at a time from 16 to 64 words.\<close>

fun sha_schedule :: "nat \<Rightarrow> w32 list \<Rightarrow> w32 list" where
  "sha_schedule 0 w = w"
| "sha_schedule (Suc k) w =
     (let t = length w
      in sha_schedule k
           (w @ [ssig1 (w ! (t - 2)) + w ! (t - 7) + ssig0 (w ! (t - 15)) + w ! (t - 16)]))"

fun sha_round :: "w32 list \<Rightarrow> w32 \<times> w32 \<Rightarrow> w32 list" where
  "sha_round [a, b, c, d, e, f, g, h] (k, w) =
     (let t1 = h + bsig1 e + sha_ch e f g + k + w;
          t2 = bsig0 a + sha_maj a b c
      in [t1 + t2, a, b, c, d + t1, e, f, g])"
| "sha_round v _ = v"

definition sha_compress :: "w32 list \<Rightarrow> bytes \<Rightarrow> w32 list" where
  "sha_compress hs block =
     map2 (+) hs (foldl sha_round hs (zip sha_K (sha_schedule 48 (sha_words block))))"

fun sha_blocks :: "nat \<Rightarrow> w32 list \<Rightarrow> bytes \<Rightarrow> w32 list" where
  "sha_blocks 0 hs m = hs"
| "sha_blocks (Suc n) hs m = sha_blocks n (sha_compress hs (take 64 m)) (drop 64 m)"

definition sha256 :: "bytes \<Rightarrow> bytes" where
  "sha256 m =
     (let p = sha_pad m
      in concat (map (\<lambda>w. map (\<lambda>i. ucast (drop_bit (8 * (3 - i)) w)) [0 ..< 4])
                     (sha_blocks (length p div 64) sha_H0 p)))"

definition hex_char :: "nat \<Rightarrow> char" where
  "hex_char d = (if d < 10 then char_of (48 + d) else char_of (87 + d))"

definition hexdigest :: "bytes \<Rightarrow> string" where
  "hexdigest bs = concat (map (\<lambda>b. [hex_char (unat b div 16), hex_char (unat b mod 16)]) bs)"

definition encode :: "string \<Rightarrow> bytes" where
  "encode s = map of_char s"

section \<open>Node\<close>

record node =
  node_id :: nat
  capacity :: nat
  storage :: "(string \<times> bytes) list"
  active :: bool

text \<open>\<open>Node(node_id)\<close>: the constructor with its default capacity of 100.\<close>

definition Node :: "nat \<Rightarrow> node" where
  "Node i = \<lparr>node_id = i, capacity = 100, storage = [], active = True\<rparr>"

definition store_chunk :: "node \<Rightarrow> string \<Rightarrow> bytes \<Rightarrow> node \<times> bool" where
  "store_chunk n chunk_id data =
     (if length (storage n) < capacity n \<and> active n
      then (n\<lparr>storage := AList.update chunk_id data (storage n)\<rparr>, True)
      else (n, False))"

definition retrieve_chunk :: "node \<Rightarrow> string \<Rightarrow> bytes option" where
  "retrieve_chunk n chunk_id = (if active n then map_of (storage n) chunk_id else None)"

definition fail :: "node \<Rightarrow> node" where
  "fail n = n\<lparr>active := False\<rparr>"

section \<open>DFS\<close>

text \<open>
  \<open>metadata\<close> is the \<open>defaultdict(list)\<close> from file hash to the list of
  \<open>(node_id, chunk_id)\<close> records. Node objects are referred to by their position in
  \<open>self.nodes\<close>, so that a store through a reference taken from \<open>sorted(self.nodes)\<close>
  or from \<open>self.nodes[node_id]\<close> changes the one shared node.
\<close>

record dfs =
  nodes :: "node list"
  replication_factor :: int
  metadata :: "(string \<times> (nat \<times> string) list) list"

text \<open>\<open>self.chunk_size\<close> is set to 1024 by the constructor and never assigned again.\<close>

definition chunk_size :: nat where
  "chunk_size = 1024"

definition DFS :: "nat \<Rightarrow> int \<Rightarrow> dfs" where
  "DFS num_nodes rf =
     \<lparr>nodes = map Node [0 ..< num_nodes], replication_factor = rf, metadata = []\<rparr>"

text \<open>Reading \<open>self.metadata[h]\<close> and \<open>self.metadata[h].append(r)\<close> on the defaultdict.\<close>

definition md_get :: "(string \<times> (nat \<times> string) list) list \<Rightarrow> string \<Rightarrow> (nat \<times> string) list" where
  "md_get md h = (case map_of md h of None \<Rightarrow> [] | Some recs \<Rightarrow> recs)"

definition md_append ::
  "(string \<times> (nat \<times> string) list) list \<Rightarrow> string \<Rightarrow> nat \<times> string
     \<Rightarrow> (string \<times> (nat \<times> string) list) list" where
  "md_append md h r = AList.update h (md_get md h @ [r]) md"

subsection \<open>upload_file\<close>

definition file_hash_of :: "string \<Rightarrow> string" where
  "file_hash_of filename = hexdigest (sha256 (encode filename))"

definition make_chunk_id :: "string \<Rightarrow> nat \<Rightarrow> string" where
  "make_chunk_id file_hash i = file_hash @ ''_chunk_'' @ str_nat i"

definition split_chunks :: "bytes \<Rightarrow> bytes list" where
  "split_chunks content =
     map (\<lambda>i. py_slice content i (i + chunk_size)) (py_range_step (length content) chunk_size)"

text \<open>\<open>sorted(self.nodes, key=lambda x: len(x.storage))\<close>, as references; the sort is stable.\<close>

definition ranked_nodes :: "dfs \<Rightarrow> nat list" where
  "ranked_nodes s = sort_key (\<lambda>r. length (storage (nodes s ! r))) [0 ..< length (nodes s)]"

text \<open>
  The inner loop of \<open>upload_file\<close> over the ranked nodes, with \<open>replicas_placed\<close> as the
  last argument. The warning printed after the loop is not part of the state.
\<close>

fun place_replicas :: "dfs \<Rightarrow> string \<Rightarrow> string \<Rightarrow> bytes \<Rightarrow> nat list \<Rightarrow> int \<Rightarrow> dfs" where
  "place_replicas s file_hash chunk_id chunk [] placed = s"
| "place_replicas s file_hash chunk_id chunk (r # rs) placed =
     (case store_chunk (nodes s ! r) chunk_id chunk of
        (n', True) \<Rightarrow>
          (let s' = s\<lparr>nodes := (nodes s)[r := n'],
                      metadata := md_append (metadata s) file_hash (node_id n', chunk_id)\<rparr>
           in if placed + 1 = replication_factor s then s'
              else place_replicas s' file_hash chunk_id chunk rs (placed + 1))
      | (n', False) \<Rightarrow> place_replicas s file_hash chunk_id chunk rs placed)"

fun upload_chunks :: "dfs \<Rightarrow> string \<Rightarrow> (nat \<times> bytes) list \<Rightarrow> dfs" where
  "upload_chunks s file_hash [] = s"
| "upload_chunks s file_hash ((i, chunk) # rest) =
     upload_chunks
       (place_replicas s file_hash (make_chunk_id file_hash i) chunk (ranked_nodes s) 0)
       file_hash rest"

definition upload_file :: "dfs \<Rightarrow> string \<Rightarrow> bytes \<Rightarrow> dfs \<times> string" where
  "upload_file s filename content =
     (let file_hash = file_hash_of filename;
          chunks = split_chunks content
      in (upload_chunks s file_hash (enumerate 0 chunks), file_hash))"

subsection \<open>download_file\<close>

text \<open>The loop filling the \<open>chunks\<close> dict; \<open>if chunk_data:\<close> rejects \<open>None\<close> and \<open>b''\<close>.\<close>

fun fetch_chunks ::
  "dfs \<Rightarrow> (nat \<times> string) list \<Rightarrow> (string \<times> bytes) list \<Rightarrow> py_error + (string \<times> bytes) list" where
  "fetch_chunks s [] chunks = Inr chunks"
| "fetch_chunks s ((nid, chunk_id) # recs) chunks =
     (if nid < length (nodes s)
      then (case retrieve_chunk (nodes s ! nid) chunk_id of
              None \<Rightarrow> fetch_chunks s recs chunks
            | Some chunk_data \<Rightarrow>
                if chunk_data \<noteq> [] then fetch_chunks s recs (AList.update chunk_id chunk_data chunks)
                else fetch_chunks s recs chunks)
      else Inl IndexError)"

text \<open>The sort key \<open>int(x[0].split('_chunk_')[1])\<close>.\<close>

definition chunk_index :: "string \<Rightarrow> py_error + nat" where
  "chunk_index chunk_id =
     (case py_split chunk_id ''_chunk_'' of
        _ # p # _ \<Rightarrow> py_int p
      | _ \<Rightarrow> Inl IndexError)"

fun sort_keys :: "(string \<times> bytes) list \<Rightarrow> py_error + (nat \<times> string \<times> bytes) list" where
  "sort_keys [] = Inr []"
| "sort_keys (x # xs) =
     (case chunk_index (fst x) of
        Inl e \<Rightarrow> Inl e
      | Inr k \<Rightarrow> (case sort_keys xs of Inl e \<Rightarrow> Inl e | Inr ks \<Rightarrow> Inr ((k, x) # ks)))"

definition download_file :: "dfs \<Rightarrow> string \<Rightarrow> py_error + bytes option" where
  "download_file s file_hash =
     (case map_of (metadata s) file_hash of
        None \<Rightarrow> Inr None
      | Some recs \<Rightarrow>
          (case fetch_chunks s recs [] of
             Inl e \<Rightarrow> Inl e
           | Inr chunks \<Rightarrow>
               if chunks = [] then Inr None
               else (case sort_keys chunks of
                       Inl e \<Rightarrow> Inl e
                     | Inr keyed \<Rightarrow>
                         Inr (Some (concat (map (\<lambda>(k, cid, chunk). chunk) (sort_key fst keyed)))))))"

subsection \<open>Node failure and recover_data\<close>

text \<open>\<open>self.nodes[i].fail()\<close>, as \<open>monitor_nodes\<close> does to a node it picks.\<close>

definition fail_node :: "dfs \<Rightarrow> nat \<Rightarrow> dfs" where
  "fail_node s i = s\<lparr>nodes := (nodes s)[i := fail (nodes s ! i)]\<rparr>"

text \<open>
  The changes \<open>recover_data\<close> makes to the metadata are recorded, in the order they happen,
  next to the state: a record appended for a file, the end of the scan for one affected
  chunk, and each record dropped when the list of a file is rebuilt.
\<close>

datatype event =
  Appended string nat string
  | Scanned string string
  | Removed string nat string

definition affected_chunks :: "dfs \<Rightarrow> nat \<Rightarrow> (string \<times> string) list" where
  "affected_chunks s failed =
     concat (map (\<lambda>(file_hash, chunks).
                    map (\<lambda>(nid, chunk_id). (file_hash, chunk_id))
                        (filter (\<lambda>(nid, chunk_id). nid = failed) chunks))
                 (metadata s))"

text \<open>\<open>for new_node in self.nodes\<close>: the first active node other than the source that accepts.\<close>

fun re_replicate ::
  "dfs \<Rightarrow> string \<Rightarrow> string \<Rightarrow> bytes \<Rightarrow> nat \<Rightarrow> nat list \<Rightarrow> dfs \<times> event list" where
  "re_replicate s file_hash chunk_id chunk_data src [] = (s, [])"
| "re_replicate s file_hash chunk_id chunk_data src (r # rs) =
     (if active (nodes s ! r) \<and> node_id (nodes s ! r) \<noteq> src
      then (case store_chunk (nodes s ! r) chunk_id chunk_data of
              (n', True) \<Rightarrow>
                (s\<lparr>nodes := (nodes s)[r := n'],
                   metadata := md_append (metadata s) file_hash (node_id n', chunk_id)\<rparr>,
                 [Appended file_hash (node_id n') chunk_id])
            | (n', False) \<Rightarrow> re_replicate s file_hash chunk_id chunk_data src rs)
      else re_replicate s file_hash chunk_id chunk_data src rs)"

text \<open>The body of the loop over \<open>self.metadata[file_hash]\<close>, for the record \<open>(nid, cid)\<close>.\<close>

definition scan_record ::
  "string \<Rightarrow> string \<Rightarrow> nat \<Rightarrow> nat \<times> string \<Rightarrow> dfs \<Rightarrow> py_error + dfs \<times> event list" where
  "scan_record file_hash chunk_id failed rec s =
     (case rec of (nid, cid) \<Rightarrow>
        if cid = chunk_id \<and> nid \<noteq> failed
        then (if nid < length (nodes s)
              then (case retrieve_chunk (nodes s ! nid) chunk_id of
                      None \<Rightarrow> Inr (s, [])
                    | Some chunk_data \<Rightarrow>
                        if chunk_data \<noteq> []
                        then Inr (re_replicate s file_hash chunk_id chunk_data nid
                                    [0 ..< length (nodes s)])
                        else Inr (s, []))
              else Inl IndexError)
        else Inr (s, []))"

text \<open>
  The loop over \<open>self.metadata[file_hash]\<close> itself. The list is the live one: a record
  appended by the body is visited later by the same loop, so the loop is over an index
  that runs to the current length, and it need not end. \<open>None\<close> is a run that never
  returns.
\<close>

partial_function (option) recover_scan ::
  "string \<Rightarrow> string \<Rightarrow> nat \<Rightarrow> nat \<Rightarrow> dfs \<Rightarrow> event list \<Rightarrow> (py_error + dfs \<times> event list) option" where
  "recover_scan file_hash chunk_id failed i s tr =
     (if i < length (md_get (metadata s) file_hash)
      then (case scan_record file_hash chunk_id failed (md_get (metadata s) file_hash ! i) s of
              Inl e \<Rightarrow> Some (Inl e)
            | Inr (s', ev) \<Rightarrow> recover_scan file_hash chunk_id failed (i + 1) s' (tr @ ev))
      else Some (Inr (s, tr)))"

text \<open>
  \<open>self.metadata[file_hash] = [(nid, cid) for nid, cid in ... if nid != failed_node_id]\<close>
\<close>

definition drop_failed :: "string \<Rightarrow> nat \<Rightarrow> dfs \<Rightarrow> dfs \<times> event list" where
  "drop_failed file_hash failed s =
     (let recs = md_get (metadata s) file_hash
      in (s\<lparr>metadata := AList.update file_hash (filter (\<lambda>(nid, cid). nid \<noteq> failed) recs)
                           (metadata s)\<rparr>,
          map (\<lambda>(nid, cid). Removed file_hash nid cid)
              (filter (\<lambda>(nid, cid). \<not> nid \<noteq> failed) recs)))"

fun recover_chunks ::
  "nat \<Rightarrow> (string \<times> string) list \<Rightarrow> dfs \<Rightarrow> event list \<Rightarrow> (py_error + dfs \<times> event list) option" where
  "recover_chunks failed [] s tr = Some (Inr (s, tr))"
| "recover_chunks failed ((file_hash, chunk_id) # rest) s tr =
     (case recover_scan file_hash chunk_id failed 0 s tr of
        None \<Rightarrow> None
      | Some (Inl e) \<Rightarrow> Some (Inl e)
      | Some (Inr (s1, tr1)) \<Rightarrow>
          (case drop_failed file_hash failed s1 of
             (s2, ev) \<Rightarrow> recover_chunks failed rest s2 (tr1 @ [Scanned file_hash chunk_id] @ ev)))"

definition recover_trace :: "dfs \<Rightarrow> nat \<Rightarrow> (py_error + dfs \<times> event list) option" where
  "recover_trace s failed = recover_chunks failed (affected_chunks s failed) s []"

definition recover_data :: "dfs \<Rightarrow> nat \<Rightarrow> (py_error + dfs) option" where
  "recover_data s failed = map_option (map_sum id fst) (recover_trace s failed)"

subsection \<open>Reachable states\<close>

text \<open>
  The states a \<open>DFS\<close> object goes through under any sequence of uploads, node failures
  and recoveries that return. \<open>download_file\<close> leaves the state as it is.
\<close>

inductive reachable :: "dfs \<Rightarrow> bool" where
  r_init: "reachable (DFS num_nodes rf)"
| r_upload: "reachable s \<Longrightarrow> reachable (fst (upload_file s filename content))"
| r_fail: "reachable s \<Longrightarrow> i < length (nodes s) \<Longrightarrow> reachable (fail_node s i)"
| r_recover: "reachable s \<Longrightarrow> recover_data s failed = Some (Inr s') \<Longrightarrow> reachable s'"

section \<open>Placement as the specification words it\<close>

text \<open>One successful placement: the store on the node behind reference \<open>r\<close> and its record.\<close>

definition store_on :: "string \<Rightarrow> string \<Rightarrow> bytes \<Rightarrow> nat \<Rightarrow> dfs \<Rightarrow> dfs" where
  "store_on file_hash chunk_id chunk r s =
     s\<lparr>nodes := (nodes s)[r := fst (store_chunk (nodes s ! r) chunk_id chunk)],
       metadata := md_append (metadata s) file_hash (node_id (nodes s ! r), chunk_id)\<rparr>"

text \<open>A node whose store attempt succeeds: active and not full.\<close>

definition accepting :: "dfs \<Rightarrow> nat \<Rightarrow> bool" where
  "accepting s r =
     (active (nodes s ! r) \<and> length (storage (nodes s ! r)) < capacity (nodes s ! r))"

text \<open>
  The placement policy in the words of the specification: rank all nodes by ascending
  chunk count, ties by node id; take from the front the nodes whose store succeeds, up to
  \<open>replication_factor\<close> of them; do this anew for every chunk.
\<close>

definition spec_ranking :: "dfs \<Rightarrow> nat list" where
  "spec_ranking s =
     sort_key (\<lambda>r. (length (storage (nodes s ! r)), node_id (nodes s ! r)))
       [0 ..< length (nodes s)]"

definition spec_choose_targets :: "dfs \<Rightarrow> nat list" where
  "spec_choose_targets s =
     take (nat (replication_factor s)) (filter (accepting s) (spec_ranking s))"

fun spec_upload_chunks :: "dfs \<Rightarrow> string \<Rightarrow> (nat \<times> bytes) list \<Rightarrow> dfs" where
  "spec_upload_chunks s file_hash [] = s"
| "spec_upload_chunks s file_hash ((i, chunk) # rest) =
     spec_upload_chunks
       (fold (store_on file_hash (make_chunk_id file_hash i) chunk) (spec_choose_targets s) s)
       file_hash rest"

section \<open>What a download returns\<close>

text \<open>
  A record answers when its node returns non-empty data for its chunk id. For a file
  with records \<open>recs\<close>, the sequence numbers that are fetched are those with an answering
  record, and the data used for one of them is that of its last answering record (a later
  record overwrites an earlier entry of the \<open>chunks\<close> dict).
\<close>

definition answers :: "dfs \<Rightarrow> nat \<times> string \<Rightarrow> bool" where
  "answers s r =
     (case retrieve_chunk (nodes s ! fst r) (snd r) of None \<Rightarrow> False | Some d \<Rightarrow> d \<noteq> [])"

definition answering :: "dfs \<Rightarrow> (nat \<times> string) list \<Rightarrow> string \<Rightarrow> (nat \<times> string) list" where
  "answering s recs cid = filter (\<lambda>r. snd r = cid \<and> answers s r) recs"

definition fetched_indices :: "dfs \<Rightarrow> string \<Rightarrow> (nat \<times> string) list \<Rightarrow> nat list" where
  "fetched_indices s h recs =
     sorted_list_of_set {j. answering s recs (make_chunk_id h j) \<noteq> []}"

definition fetched_chunk :: "dfs \<Rightarrow> string \<Rightarrow> (nat \<times> string) list \<Rightarrow> nat \<Rightarrow> bytes" where
  "fetched_chunk s h recs j =
     (case last (answering s recs (make_chunk_id h j)) of
        (nid, cid) \<Rightarrow> the (retrieve_chunk (nodes s ! nid) cid))"

text \<open>The \<open>chunks\<close> dict of \<open>download_file\<close> as a map, for the proofs.\<close>

fun fetch_map :: "dfs \<Rightarrow> (nat \<times> string) list \<Rightarrow> (string \<rightharpoonup> bytes) \<Rightarrow> (string \<rightharpoonup> bytes)" where
  "fetch_map s [] m = m"
| "fetch_map s (r # recs) m =
     fetch_map s recs
       (if answers s r then m(snd r \<mapsto> the (retrieve_chunk (nodes s ! fst r) (snd r))) else m)"

text \<open>The sequence number of a well-formed chunk id.\<close>

definition cidx :: "string \<Rightarrow> nat" where
  "cidx cid = (case chunk_index cid of Inr k \<Rightarrow> k | Inl e \<Rightarrow> 0)"

text \<open>
  The first \<open>n\<close> chunks of \<open>cs\<close> are stored for file \<open>h\<close>: every record of the file is for
  one of them and its node returns that chunk, and each of them has a record.
\<close>

definition stored_up_to :: "dfs \<Rightarrow> string \<Rightarrow> bytes list \<Rightarrow> nat \<Rightarrow> bool" where
  "stored_up_to s h cs n \<longleftrightarrow>
     (\<forall>r \<in> set (md_get (metadata s) h).
        \<exists>j < n. snd r = make_chunk_id h j
          \<and> retrieve_chunk (nodes s ! fst r) (snd r) = Some (cs ! j))
     \<and> (\<forall>j < n. \<exists>r \<in> set (md_get (metadata s) h). snd r = make_chunk_id h j)"

section \<open>Invariants of the reachable states\<close>

text \<open>
  Node ids are the positions in \<open>self.nodes\<close>; no node is over capacity; every metadata
  record sits under a key free of underscores (a hex digest) and names an existing node
  and a chunk id built from that key.
\<close>

definition dfs_inv :: "dfs \<Rightarrow> bool" where
  "dfs_inv s \<longleftrightarrow>
     (\<forall>i < length (nodes s). node_id (nodes s ! i) = i)
     \<and> (\<forall>n \<in> set (nodes s). length (storage n) \<le> capacity n)
     \<and> (\<forall>(h, recs) \<in> set (metadata s). \<forall>(nid, cid) \<in> set recs.
          CHR ''_'' \<notin> set h \<and> nid < length (nodes s) \<and> (\<exists>k. cid = make_chunk_id h k))"

section \<open>Facts about the Python primitives\<close>

lemma is_digit_digit_char: "d < 10 \<Longrightarrow> is_digit (digit_char d)"
  by (simp add: is_digit_def digit_char_def)

lemma digit_val_digit_char: "d < 10 \<Longrightarrow> digit_val (digit_char d) = d"
  by (simp add: digit_val_def digit_char_def)

lemma str_nat_digits: "list_all is_digit (str_nat n)"
proof (induction n rule: str_nat.induct)
  case (1 n)
  show ?case
  proof (cases "n < 10")
    case True
    then show ?thesis by (simp add: str_nat.simps [of n] is_digit_digit_char)
  next
    case False
    with 1 show ?thesis by (simp add: str_nat.simps [of n] is_digit_digit_char)
  qed
qed

lemma str_nat_nonempty: "str_nat n \<noteq> []"
  by (simp add: str_nat.simps [of n])

lemma str_nat_value: "foldl (\<lambda>acc c. 10 * acc + digit_val c) 0 (str_nat n) = n"
proof (induction n rule: str_nat.induct)
  case (1 n)
  show ?case
  proof (cases "n < 10")
    case True
    then show ?thesis by (simp add: str_nat.simps [of n] digit_val_digit_char)
  next
    case False
    with 1 show ?thesis by (simp add: str_nat.simps [of n] digit_val_digit_char)
  qed
qed

lemma py_int_str_nat: "py_int (str_nat n) = Inr n"
  by (simp add: py_int_def str_nat_digits str_nat_nonempty str_nat_value)

lemma str_nat_inj: "str_nat a = str_nat b \<Longrightarrow> a = b"
  by (metis py_int_str_nat sum.inject(2))

lemma underscore_not_digit: "\<not> is_digit CHR ''_''"
  by (simp add: is_digit_def)

lemma str_nat_no_underscore: "CHR ''_'' \<notin> set (str_nat n)"
  using str_nat_digits [of n] underscore_not_digit by (auto simp: list_all_iff)

lemma hex_char_not_underscore: "d < 16 \<Longrightarrow> hex_char d \<noteq> CHR ''_''"
proof -
  assume d: "d < 16"
  have "of_char (hex_char d) \<noteq> (95 :: nat)"
    using d by (simp add: hex_char_def)
  moreover have "of_char CHR ''_'' = (95 :: nat)" by simp
  ultimately show ?thesis by metis
qed

lemma hexdigest_no_underscore: "CHR ''_'' \<notin> set (hexdigest bs)"
proof -
  have hi: "CHR ''_'' \<noteq> hex_char (unat b div 16)" for b :: "8 word"
  proof -
    have "unat b < 2 ^ LENGTH(8)" by (rule unsigned_less)
    then have "unat b div 16 < 16" by simp
    then show ?thesis by (rule hex_char_not_underscore [symmetric])
  qed
  have lo: "CHR ''_'' \<noteq> hex_char (unat b mod 16)" for b :: "8 word"
    by (rule hex_char_not_underscore [symmetric]) simp
  show ?thesis
    using hi lo by (auto simp: hexdigest_def)
qed

lemma file_hash_no_underscore: "CHR ''_'' \<notin> set (file_hash_of name)"
  by (simp add: file_hash_of_def hexdigest_no_underscore)

lemma split_acc_no_sep:
  "sep \<noteq> [] \<Longrightarrow> hd sep \<notin> set s \<Longrightarrow> split_acc sep acc s = [rev acc @ s]"
proof (induction s arbitrary: acc)
  case Nil
  then show ?case by simp
next
  case (Cons c cs)
  then have "take (length sep) (c # cs) \<noteq> sep"
    by (cases sep) auto
  with Cons show ?case by simp
qed

lemma split_acc_first:
  "sep \<noteq> [] \<Longrightarrow> hd sep \<notin> set h \<Longrightarrow>
   split_acc sep acc (h @ sep @ t) = (rev acc @ h) # split_acc sep [] t"
proof (induction h arbitrary: acc)
  case Nil
  then show ?case by (cases sep) auto
next
  case (Cons c cs)
  then have "take (length sep) ((c # cs) @ sep @ t) \<noteq> sep"
    by (cases sep) auto
  with Cons show ?case by simp
qed

lemma chunk_index_make_chunk_id:
  assumes "CHR ''_'' \<notin> set h"
  shows "chunk_index (make_chunk_id h k) = Inr k"
proof -
  have "py_split (make_chunk_id h k) ''_chunk_'' = [h, str_nat k]"
    unfolding py_split_def make_chunk_id_def
    using assms split_acc_first [of "''_chunk_''" h "[]" "str_nat k"]
      split_acc_no_sep [of "''_chunk_''" "str_nat k" "[]"] str_nat_no_underscore [of k]
    by simp
  then show ?thesis by (simp add: chunk_index_def py_int_str_nat)
qed

lemma make_chunk_id_inj: "make_chunk_id h a = make_chunk_id h b \<Longrightarrow> a = b"
  by (simp add: make_chunk_id_def str_nat_inj)

lemma py_range_step_0: "py_range_step 0 chunk_size = []"
  by (simp add: py_range_step_def chunk_size_def)

lemma split_chunks_Nil: "split_chunks [] = []"
  by (simp add: split_chunks_def py_range_step_0)

section \<open>Node.store_chunk\<close>

text \<open>
  Claim C4. \<open>store_chunk\<close> reports success exactly when the node is active and holds
  fewer chunks than its capacity. On success the chunk id maps to the new data, every
  other entry and the other fields of the node stay as they were, and a chunk id already
  present keeps the key set as it is (the entry is overwritten). On failure the node is
  returned unchanged; no branch raises. Storing the same chunk twice leaves the same node
  as storing it once.
\<close>

theorem store_chunk_spec:
  "(snd (store_chunk n chunk_id d) \<longleftrightarrow> active n \<and> length (storage n) < capacity n)
   \<and> (snd (store_chunk n chunk_id d) \<longrightarrow>
        map_of (storage (fst (store_chunk n chunk_id d))) = (map_of (storage n))(chunk_id \<mapsto> d)
        \<and> node_id (fst (store_chunk n chunk_id d)) = node_id n
        \<and> capacity (fst (store_chunk n chunk_id d)) = capacity n
        \<and> active (fst (store_chunk n chunk_id d)) = active n)
   \<and> (\<not> snd (store_chunk n chunk_id d) \<longrightarrow> fst (store_chunk n chunk_id d) = n)
   \<and> (snd (store_chunk n chunk_id d) \<and> chunk_id \<in> fst ` set (storage n) \<longrightarrow>
        map fst (storage (fst (store_chunk n chunk_id d))) = map fst (storage n))
   \<and> fst (store_chunk (fst (store_chunk n chunk_id d)) chunk_id d) = fst (store_chunk n chunk_id d)"
  by (auto simp: store_chunk_def update_conv' update_keys)

theorem store_chunk_spec_witness:
  "active (Node 0) \<and> length (storage (Node 0)) < capacity (Node 0)
   \<and> snd (store_chunk (Node 0) ''c'' [1])
   \<and> map_of (storage (fst (store_chunk (Node 0) ''c'' [1]))) ''c'' = Some [1]
   \<and> \<not> snd (store_chunk (fail (Node 0)) ''c'' [1])
   \<and> fst (store_chunk (fail (Node 0)) ''c'' [1]) = fail (Node 0)
   \<and> ''c'' \<in> fst ` set (storage (fst (store_chunk (Node 0) ''c'' [1])))
   \<and> map fst (storage (fst (store_chunk (fst (store_chunk (Node 0) ''c'' [1])) ''c'' [2]))) = [''c'']"
  using store_chunk_spec [of "Node 0" "''c''" "[1]"]
    store_chunk_spec [of "fail (Node 0)" "''c''" "[1]"]
    store_chunk_spec [of "fst (store_chunk (Node 0) ''c'' [1])" "''c''" "[2]"]
  by (simp add: Node_def fail_def store_chunk_def)

section \<open>The file id\<close>

text \<open>
  Claim C8. The id returned by \<open>upload_file\<close> is the SHA-256 hex digest of the file
  name: two uploads under one name return the same id, whatever the contents and whatever
  the states they start from.
\<close>

theorem upload_file_id_from_name:
  "snd (upload_file s1 filename c1) = snd (upload_file s2 filename c2)
   \<and> snd (upload_file s1 filename c1) = file_hash_of filename"
  by (simp add: upload_file_def Let_def)

section \<open>Uploading empty content\<close>

text \<open>
  Claim C10. Uploading zero bytes returns the file id and leaves the whole state as it
  was: no chunk is stored and no metadata record is made. Every later download answers as
  it would have without the upload, and when the id had no metadata entry the download of
  the returned id is \<open>None\<close>, as for a file that was never uploaded.
\<close>

theorem upload_empty_content:
  "upload_file s filename [] = (s, file_hash_of filename)
   \<and> download_file (fst (upload_file s filename [])) h = download_file s h
   \<and> (map_of (metadata s) (file_hash_of filename) = None \<longrightarrow>
        download_file (fst (upload_file s filename [])) (snd (upload_file s filename [])) = Inr None)"
  by (simp add: upload_file_def split_chunks_Nil enumerate_eq_zip download_file_def)

theorem upload_empty_content_witness:
  "map_of (metadata (DFS 5 2)) (file_hash_of ''f'') = None
   \<and> download_file (fst (upload_file (DFS 5 2) ''f'' [])) (snd (upload_file (DFS 5 2) ''f'' [])) = Inr None"
proof -
  have m: "map_of (metadata (DFS 5 2)) (file_hash_of ''f'') = None"
    by (simp add: DFS_def)
  with upload_empty_content [of "DFS 5 2" "''f''" "file_hash_of ''f''"] show ?thesis
    by blast
qed

section \<open>Preservation of the invariants\<close>

lemma set_update_subset: "set (AList.update k v al) \<subseteq> insert (k, v) (set al)"
  by (induction al) auto

lemma length_alist_update: "length (AList.update k v al) \<le> Suc (length al)"
  by (induction al) auto

lemma md_get_cases: "md_get md h = [] \<or> (h, md_get md h) \<in> set md"
  by (auto simp: md_get_def split: option.splits dest: map_of_SomeD)

lemma store_chunk_fields:
  "node_id (fst (store_chunk n c d)) = node_id n"
  "capacity (fst (store_chunk n c d)) = capacity n"
  "active (fst (store_chunk n c d)) = active n"
  by (simp_all add: store_chunk_def)

lemma store_chunk_length:
  "length (storage n) \<le> capacity n \<Longrightarrow>
   length (storage (fst (store_chunk n c d))) \<le> capacity n"
  using length_alist_update [of c d "storage n"] by (auto simp: store_chunk_def)

lemma store_on_fields:
  "length (nodes (store_on h c d r s)) = length (nodes s)"
  "replication_factor (store_on h c d r s) = replication_factor s"
  by (simp_all add: store_on_def)

lemma store_step_eq:
  "store_chunk (nodes s ! r) c d = (n', b) \<Longrightarrow>
   s\<lparr>nodes := (nodes s)[r := n'], metadata := md_append (metadata s) h (node_id n', c)\<rparr>
     = store_on h c d r s"
  using store_chunk_fields(1) [of "nodes s ! r" c d]
  by (simp add: store_on_def)

lemma dfs_inv_store_on:
  assumes inv: "dfs_inv s" and r: "r < length (nodes s)" and h: "CHR ''_'' \<notin> set h"
  shows "dfs_inv (store_on h (make_chunk_id h k) d r s)"
proof -
  let ?c = "make_chunk_id h k"
  let ?s = "store_on h ?c d r s"
  have ids: "\<forall>i < length (nodes s). node_id (nodes s ! i) = i"
    and cap: "\<forall>n \<in> set (nodes s). length (storage n) \<le> capacity n"
    and md: "\<forall>(h, recs) \<in> set (metadata s). \<forall>(nid, cid) \<in> set recs.
          CHR ''_'' \<notin> set h \<and> nid < length (nodes s) \<and> (\<exists>k. cid = make_chunk_id h k)"
    using inv by (simp_all add: dfs_inv_def)
  have 1: "\<forall>i < length (nodes ?s). node_id (nodes ?s ! i) = i"
    using ids r by (auto simp: store_on_def nth_list_update store_chunk_fields)
  have 2: "\<forall>n \<in> set (nodes ?s). length (storage n) \<le> capacity n"
  proof
    fix n assume "n \<in> set (nodes ?s)"
    then have "n \<in> insert (fst (store_chunk (nodes s ! r) ?c d)) (set (nodes s))"
      using set_update_subset_insert [of "nodes s" r] by (auto simp: store_on_def)
    moreover have "length (storage (nodes s ! r)) \<le> capacity (nodes s ! r)"
      using cap r by simp
    ultimately show "length (storage n) \<le> capacity n"
      using cap store_chunk_length [of "nodes s ! r" ?c d]
      by (auto simp: store_chunk_fields)
  qed
  have 3: "\<forall>(h', recs) \<in> set (metadata ?s). \<forall>(nid, cid) \<in> set recs.
          CHR ''_'' \<notin> set h' \<and> nid < length (nodes ?s) \<and> (\<exists>k. cid = make_chunk_id h' k)"
  proof -
    have "\<forall>(nid, cid) \<in> set recs.
          CHR ''_'' \<notin> set h' \<and> nid < length (nodes ?s) \<and> (\<exists>k. cid = make_chunk_id h' k)"
      if "(h', recs) \<in> set (metadata ?s)" for h' recs
    proof -
    from that have "(h', recs) \<in> insert (h, md_get (metadata s) h @ [(node_id (nodes s ! r), ?c)])
                                   (set (metadata s))"
      using set_update_subset by (fastforce simp: store_on_def md_append_def)
    then consider "h' = h" "recs = md_get (metadata s) h @ [(node_id (nodes s ! r), ?c)]"
      | "(h', recs) \<in> set (metadata s)" by auto
    then show ?thesis
    proof cases
      case 1
      have "\<forall>(nid, cid) \<in> set (md_get (metadata s) h).
              nid < length (nodes s) \<and> (\<exists>k. cid = make_chunk_id h k)"
        using md_get_cases [of "metadata s" h] md by fastforce
      then show ?thesis
        using 1 h r ids by (auto simp: store_on_fields)
    next
      case 2
      then show ?thesis using md by (auto simp: store_on_fields)
    qed
    qed
    then show ?thesis by blast
  qed
  from 1 2 3 show ?thesis by (simp add: dfs_inv_def)
qed

lemma dfs_inv_place_replicas:
  "dfs_inv s \<Longrightarrow> \<forall>r \<in> set rs. r < length (nodes s) \<Longrightarrow> CHR ''_'' \<notin> set h \<Longrightarrow>
   dfs_inv (place_replicas s h (make_chunk_id h k) d rs placed)
   \<and> length (nodes (place_replicas s h (make_chunk_id h k) d rs placed)) = length (nodes s)
   \<and> replication_factor (place_replicas s h (make_chunk_id h k) d rs placed) = replication_factor s"
proof (induction rs arbitrary: s placed)
  case Nil
  then show ?case by simp
next
  case (Cons r rs)
  obtain n' b where st: "store_chunk (nodes s ! r) (make_chunk_id h k) d = (n', b)"
    by (cases "store_chunk (nodes s ! r) (make_chunk_id h k) d")
  show ?case
  proof (cases b)
    case True
    let ?s' = "store_on h (make_chunk_id h k) d r s"
    have inv': "dfs_inv ?s'" using Cons.prems by (simp add: dfs_inv_store_on)
    have rs': "\<forall>r \<in> set rs. r < length (nodes ?s')"
      using Cons.prems by (simp add: store_on_fields)
    from Cons.IH [OF inv' rs' Cons.prems(3)] inv' show ?thesis
      using st True store_step_eq [OF st, of h]
      by (simp add: Let_def store_on_fields)
  next
    case False
    with Cons st show ?thesis by simp
  qed
qed

lemma ranked_nodes_set: "set (ranked_nodes s) = {..< length (nodes s)}"
  by (auto simp: ranked_nodes_def)

lemma ranked_nodes_distinct: "distinct (ranked_nodes s)"
  by (simp add: ranked_nodes_def)

lemma dfs_inv_upload_chunks:
  "dfs_inv s \<Longrightarrow> CHR ''_'' \<notin> set h \<Longrightarrow>
   dfs_inv (upload_chunks s h ics)
   \<and> length (nodes (upload_chunks s h ics)) = length (nodes s)
   \<and> replication_factor (upload_chunks s h ics) = replication_factor s"
proof (induction ics arbitrary: s)
  case Nil
  then show ?case by simp
next
  case (Cons ic ics)
  obtain i c where ic: "ic = (i, c)" by (cases ic)
  let ?s' = "place_replicas s h (make_chunk_id h i) c (ranked_nodes s) 0"
  have p: "dfs_inv ?s' \<and> length (nodes ?s') = length (nodes s)
           \<and> replication_factor ?s' = replication_factor s"
    using Cons.prems by (intro dfs_inv_place_replicas) (simp_all add: ranked_nodes_set)
  with Cons.IH [of ?s'] Cons.prems(2) show ?case
    by (simp add: ic)
qed

lemma dfs_inv_upload_file: "dfs_inv s \<Longrightarrow> dfs_inv (fst (upload_file s filename content))"
  by (simp add: upload_file_def Let_def dfs_inv_upload_chunks file_hash_no_underscore)

lemma dfs_inv_DFS: "dfs_inv (DFS n rf)"
  by (simp add: dfs_inv_def DFS_def Node_def)

lemma fail_node_beyond: "length (nodes s) \<le> i \<Longrightarrow> fail_node s i = s"
  by (simp add: fail_node_def list_update_beyond)

lemma dfs_inv_fail_node: "dfs_inv s \<Longrightarrow> dfs_inv (fail_node s i)"
proof (cases "i < length (nodes s)")
  case False
  assume "dfs_inv s"
  with False show ?thesis by (simp add: fail_node_beyond)
next
  case True
  assume inv: "dfs_inv s"
  have "length (storage n) \<le> capacity n" if "n \<in> set ((nodes s)[i := fail (nodes s ! i)])" for n
  proof -
    from that have "n \<in> insert (fail (nodes s ! i)) (set (nodes s))"
      using set_update_subset_insert [of "nodes s" i] by auto
    then show ?thesis
      using inv True by (auto simp: dfs_inv_def fail_def)
  qed
  with inv True show ?thesis
    by (auto simp: dfs_inv_def fail_node_def nth_list_update fail_def)
qed

lemma dfs_inv_re_replicate:
  "re_replicate s h (make_chunk_id h k) d src rs = (s', ev) \<Longrightarrow>
   dfs_inv s \<Longrightarrow> \<forall>r \<in> set rs. r < length (nodes s) \<Longrightarrow> CHR ''_'' \<notin> set h \<Longrightarrow>
   dfs_inv s' \<and> length (nodes s') = length (nodes s)
   \<and> replication_factor s' = replication_factor s"
proof (induction rs)
  case Nil
  then show ?case by simp
next
  case (Cons r rs)
  obtain n' b where st: "store_chunk (nodes s ! r) (make_chunk_id h k) d = (n', b)"
    by (cases "store_chunk (nodes s ! r) (make_chunk_id h k) d")
  have "dfs_inv (store_on h (make_chunk_id h k) d r s)"
    using Cons.prems by (simp add: dfs_inv_store_on)
  with Cons st show ?case
    using store_step_eq [OF st, of h]
    by (cases b) (auto simp: store_on_fields split: if_splits)
qed

lemma md_get_inv:
  assumes "dfs_inv s" and "rec \<in> set (md_get (metadata s) h)"
  shows "CHR ''_'' \<notin> set h \<and> fst rec < length (nodes s) \<and> (\<exists>k. snd rec = make_chunk_id h k)"
proof -
  from assms(2) have "(h, md_get (metadata s) h) \<in> set (metadata s)"
    using md_get_cases [of "metadata s" h] by auto
  with assms show ?thesis
    by (fastforce simp: dfs_inv_def)
qed

lemma dfs_inv_scan_record:
  assumes inv: "dfs_inv s" and rec: "rec \<in> set (md_get (metadata s) h)"
    and sc: "scan_record h c f rec s = Inr (s', ev)"
  shows "dfs_inv s' \<and> length (nodes s') = length (nodes s)
         \<and> replication_factor s' = replication_factor s"
proof -
  obtain nid cid where r: "rec = (nid, cid)" by (cases rec)
  from md_get_inv [OF inv rec] obtain k where
    h: "CHR ''_'' \<notin> set h" and cid: "cid = make_chunk_id h k"
    by (auto simp: r)
  have rr: "dfs_inv s' \<and> length (nodes s') = length (nodes s)
         \<and> replication_factor s' = replication_factor s"
    if "re_replicate s h (make_chunk_id h k) d nid [0 ..< length (nodes s)] = (s', ev)" for d
    using dfs_inv_re_replicate [OF that inv _ h] by simp
  show ?thesis
  proof (cases "cid = c \<and> nid \<noteq> f \<and> nid < length (nodes s)
      \<and> (\<exists>d. retrieve_chunk (nodes s ! nid) c = Some d \<and> d \<noteq> [])")
    case True
    then obtain d where d: "retrieve_chunk (nodes s ! nid) c = Some d" "d \<noteq> []" by blast
    from sc True d have "re_replicate s h c d nid [0 ..< length (nodes s)] = (s', ev)"
      by (simp add: scan_record_def r)
    with True cid show ?thesis using rr by simp
  next
    case False
    with sc have "s' = s"
      by (auto simp: scan_record_def r split: if_splits option.splits)
    with inv show ?thesis by simp
  qed
qed

lemma dfs_inv_recover_scan:
  assumes "recover_scan h c f i s tr = Some y"
  shows "\<forall>s' tr'. y = Inr (s', tr') \<longrightarrow> dfs_inv s \<longrightarrow>
      dfs_inv s' \<and> length (nodes s') = length (nodes s)
      \<and> replication_factor s' = replication_factor s"
proof (rule recover_scan.raw_induct [where P = "\<lambda>h c f i s tr y.
      \<forall>s' tr'. y = Inr (s', tr') \<longrightarrow> dfs_inv s \<longrightarrow>
      dfs_inv s' \<and> length (nodes s') = length (nodes s)
      \<and> replication_factor s' = replication_factor s", OF _ assms])
  fix rscan h c f i s tr y
  assume IH: "\<And>h c f i s tr y. rscan h c f i s tr = Some y \<Longrightarrow>
      \<forall>s' tr'. y = Inr (s', tr') \<longrightarrow> dfs_inv s \<longrightarrow>
      dfs_inv s' \<and> length (nodes s') = length (nodes s)
      \<and> replication_factor s' = replication_factor s"
    and eq: "(if i < length (md_get (metadata s) h)
      then case scan_record h c f (md_get (metadata s) h ! i) s of
             Inl e \<Rightarrow> Some (Inl e)
           | Inr (s', ev) \<Rightarrow> rscan h c f (i + 1) s' (tr @ ev)
      else Some (Inr (s, tr))) = Some y"
  show "\<forall>s' tr'. y = Inr (s', tr') \<longrightarrow> dfs_inv s \<longrightarrow>
      dfs_inv s' \<and> length (nodes s') = length (nodes s)
      \<and> replication_factor s' = replication_factor s"
  proof (cases "i < length (md_get (metadata s) h)")
    case False
    with eq show ?thesis by auto
  next
    case True
    let ?rec = "md_get (metadata s) h ! i"
    have mem: "?rec \<in> set (md_get (metadata s) h)" using True by simp
    show ?thesis
    proof (cases "scan_record h c f ?rec s")
      case (Inl e)
      with eq True show ?thesis by auto
    next
      case (Inr p)
      obtain s1 ev where p: "p = (s1, ev)" by (cases p)
      from eq True Inr p have "rscan h c f (i + 1) s1 (tr @ ev) = Some y" by simp
      from IH [OF this] dfs_inv_scan_record [OF _ mem Inr [unfolded p]]
      show ?thesis by auto
    qed
  qed
qed

lemma dfs_inv_drop_failed:
  assumes "dfs_inv s" and "drop_failed h f s = (s', ev)"
  shows "dfs_inv s' \<and> nodes s' = nodes s \<and> replication_factor s' = replication_factor s"
proof -
  let ?kept = "filter (\<lambda>(nid, cid). nid \<noteq> f) (md_get (metadata s) h)"
  have "\<forall>(nid, cid) \<in> set recs.
          CHR ''_'' \<notin> set h' \<and> nid < length (nodes s) \<and> (\<exists>k. cid = make_chunk_id h' k)"
    if "(h', recs) \<in> set (AList.update h ?kept (metadata s))" for h' recs
  proof -
    from that consider "h' = h" "recs = ?kept" | "(h', recs) \<in> set (metadata s)"
      using set_update_subset [of h ?kept "metadata s"] by auto
    then show ?thesis
    proof cases
      case 1
      then show ?thesis
        using md_get_inv [OF assms(1), of _ h] by fastforce
    next
      case 2
      with assms show ?thesis by (auto simp: dfs_inv_def)
    qed
  qed
  then have md': "\<forall>(h', recs) \<in> set (AList.update h ?kept (metadata s)). \<forall>(nid, cid) \<in> set recs.
          CHR ''_'' \<notin> set h' \<and> nid < length (nodes s) \<and> (\<exists>k. cid = make_chunk_id h' k)"
    by blast
  have s': "s' = s\<lparr>metadata := AList.update h ?kept (metadata s)\<rparr>"
    using assms(2) by (auto simp: drop_failed_def Let_def)
  have ids: "\<forall>i < length (nodes s). node_id (nodes s ! i) = i"
    and cap: "\<forall>n \<in> set (nodes s). length (storage n) \<le> capacity n"
    using assms(1) by (simp_all add: dfs_inv_def)
  show ?thesis
    unfolding s' dfs_inv_def using ids cap md' by simp
qed

lemma dfs_inv_recover_chunks:
  "recover_chunks f acs s tr = Some (Inr (s', tr')) \<Longrightarrow> dfs_inv s \<Longrightarrow>
   dfs_inv s' \<and> length (nodes s') = length (nodes s)
   \<and> replication_factor s' = replication_factor s"
proof (induction acs arbitrary: s tr)
  case Nil
  then show ?case by simp
next
  case (Cons a acs)
  obtain h c where a: "a = (h, c)" by (cases a)
  from Cons.prems(1) obtain s1 tr1 where
    sc: "recover_scan h c f 0 s tr = Some (Inr (s1, tr1))"
    by (auto simp: a split: option.splits sum.splits)
  obtain s2 ev where df: "drop_failed h f s1 = (s2, ev)" by (cases "drop_failed h f s1")
  from Cons.prems(1) sc df have
    rest: "recover_chunks f acs s2 (tr1 @ [Scanned h c] @ ev) = Some (Inr (s', tr'))"
    by (simp add: a)
  from dfs_inv_recover_scan [OF sc] Cons.prems(2) have
    1: "dfs_inv s1 \<and> length (nodes s1) = length (nodes s)
        \<and> replication_factor s1 = replication_factor s" by simp
  with dfs_inv_drop_failed [OF _ df] have
    2: "dfs_inv s2 \<and> nodes s2 = nodes s1 \<and> replication_factor s2 = replication_factor s1"
    by simp
  from Cons.IH [OF rest] 1 2 show ?case by simp
qed

lemma recover_data_trace:
  "recover_data s f = Some (Inr s') \<longleftrightarrow> (\<exists>tr. recover_trace s f = Some (Inr (s', tr)))"
  by (cases "recover_trace s f") (auto simp: recover_data_def map_sum_def split: sum.splits)

lemma dfs_inv_recover_data:
  "recover_data s f = Some (Inr s') \<Longrightarrow> dfs_inv s \<Longrightarrow>
   dfs_inv s' \<and> length (nodes s') = length (nodes s)
   \<and> replication_factor s' = replication_factor s"
  unfolding recover_data_trace recover_trace_def
  using dfs_inv_recover_chunks by blast

lemma reachable_inv: "reachable s \<Longrightarrow> dfs_inv s"
proof (induction rule: reachable.induct)
  case (r_init num_nodes rf)
  show ?case by (rule dfs_inv_DFS)
next
  case (r_upload s filename content)
  then show ?case by (simp add: dfs_inv_upload_file)
next
  case (r_fail s i)
  then show ?case by (simp add: dfs_inv_fail_node)
next
  case (r_recover s failed s')
  then show ?case using dfs_inv_recover_data by blast
qed

section \<open>Capacity and inactive nodes\<close>

text \<open>
  Claim C6. In every reachable state no node holds more chunks than its capacity. A store
  on an inactive node reports failure and changes nothing, and a retrieve from an
  inactive node returns \<open>None\<close>; this holds of every node, so no operation can store on or
  read from a failed node.
\<close>

theorem capacity_and_inactive_nodes:
  "reachable s \<Longrightarrow>
     (\<forall>n \<in> set (nodes s). length (storage n) \<le> capacity n)
     \<and> (\<forall>n c d. \<not> active n \<longrightarrow> store_chunk n c d = (n, False) \<and> retrieve_chunk n c = None)"
  using reachable_inv [of s]
  by (simp add: dfs_inv_def store_chunk_def retrieve_chunk_def)

theorem capacity_and_inactive_nodes_witness:
  "reachable (fail_node (DFS 1 1) 0)
   \<and> \<not> active (nodes (fail_node (DFS 1 1) 0) ! 0)
   \<and> length (storage (nodes (fail_node (DFS 1 1) 0) ! 0))
       \<le> capacity (nodes (fail_node (DFS 1 1) 0) ! 0)
   \<and> store_chunk (nodes (fail_node (DFS 1 1) 0) ! 0) ''c'' [1]
       = (nodes (fail_node (DFS 1 1) 0) ! 0, False)
   \<and> retrieve_chunk (nodes (fail_node (DFS 1 1) 0) ! 0) ''c'' = None"
proof -
  have r: "reachable (fail_node (DFS 1 1) 0)"
    by (rule r_fail [OF r_init]) (simp add: DFS_def)
  have a: "\<not> active (nodes (fail_node (DFS 1 1) 0) ! 0)"
    by (simp add: fail_node_def DFS_def fail_def Node_def)
  have n: "nodes (fail_node (DFS 1 1) 0) ! 0 \<in> set (nodes (fail_node (DFS 1 1) 0))"
    by (simp add: fail_node_def DFS_def)
  from capacity_and_inactive_nodes [OF r] a r n show ?thesis by blast
qed

section \<open>The ranking and the placement loop\<close>

lemma insort_key_cong_le:
  "(\<And>y. y \<in> set ys \<Longrightarrow> (f x \<le> f y) = (g x \<le> g y)) \<Longrightarrow>
   insort_key f x ys = insort_key g x ys"
  by (induction ys) auto

lemma sort_key_load_then_id:
  fixes load :: "nat \<Rightarrow> nat" and idf :: "nat \<Rightarrow> nat"
  assumes "sorted xs" and "distinct xs" and "\<forall>x \<in> set xs. idf x = x"
  shows "sort_key load xs = sort_key (\<lambda>r. (load r, idf r)) xs"
  using assms
proof (induction xs)
  case Nil
  then show ?case by simp
next
  case (Cons x xs)
  let ?g = "\<lambda>r. (load r, idf r)"
  have IH: "sort_key load xs = sort_key ?g xs" using Cons by simp
  have "(load x \<le> load y) = (?g x \<le> ?g y)" if "y \<in> set (sort_key ?g xs)" for y
  proof -
    from that Cons.prems have "x \<le> y" "x \<noteq> y" "idf x = x" "idf y = y" by auto
    then have "x < y" by simp
    note \<open>x < y\<close> \<open>idf x = x\<close> \<open>idf y = y\<close>
    then show ?thesis by (auto simp: less_eq_prod_def)
  qed
  then have "insort_key load x (sort_key ?g xs) = insort_key ?g x (sort_key ?g xs)"
    by (rule insort_key_cong_le)
  with IH show ?case by simp
qed

lemma ranked_nodes_spec: "dfs_inv s \<Longrightarrow> ranked_nodes s = spec_ranking s"
  unfolding ranked_nodes_def spec_ranking_def
  by (rule sort_key_load_then_id) (simp_all add: dfs_inv_def)

lemma accepting_store: "snd (store_chunk (nodes s ! r) c d) = accepting s r"
  by (auto simp: store_chunk_def accepting_def)

lemma accepting_store_on_other:
  "r' \<noteq> r \<Longrightarrow> accepting (store_on h c d r s) r' = accepting s r'"
  by (cases "r < length (nodes s)") (simp_all add: accepting_def store_on_def list_update_beyond)

lemma place_replicas_fold:
  "distinct rs \<Longrightarrow> placed < replication_factor s \<Longrightarrow>
   place_replicas s h c d rs placed =
     fold (store_on h c d) (take (nat (replication_factor s - placed)) (filter (accepting s) rs)) s"
proof (induction rs arbitrary: s placed)
  case Nil
  then show ?case by simp
next
  case (Cons r rs)
  obtain n' b where st: "store_chunk (nodes s ! r) c d = (n', b)"
    by (cases "store_chunk (nodes s ! r) c d")
  have b: "b = accepting s r" using accepting_store [of s r c d] st by simp
  show ?case
  proof (cases b)
    case False
    with Cons st b show ?thesis by simp
  next
    case True
    let ?s' = "store_on h c d r s"
    have step: "s\<lparr>nodes := (nodes s)[r := n'],
                 metadata := md_append (metadata s) h (node_id n', c)\<rparr> = ?s'"
      by (rule store_step_eq [OF st])
    have "accepting ?s' x = accepting s x" if "x \<in> set rs" for x
      using that Cons.prems(1) by (intro accepting_store_on_other) auto
    then have filt: "filter (accepting ?s') rs = filter (accepting s) rs"
      by (intro filter_cong) simp_all
    from Cons.prems(2) obtain m where m: "nat (replication_factor s - placed) = Suc m"
      by (cases "nat (replication_factor s - placed)") auto
    show ?thesis
    proof (cases "placed + 1 = replication_factor s")
      case eq: True
      then have "m = 0" using m by simp
      with st True step b eq m show ?thesis by simp
    next
      case ne: False
      then have lt: "placed + 1 < replication_factor ?s'"
        using Cons.prems(2) by (simp add: store_on_fields)
      have m': "nat (replication_factor ?s' - (placed + 1)) = m"
        using m by (simp add: store_on_fields)
      from Cons.IH [where s = ?s' and placed = "placed + 1"] Cons.prems(1) lt
      have "place_replicas ?s' h c d rs (placed + 1) =
              fold (store_on h c d) (take m (filter (accepting s) rs)) ?s'"
        by (simp add: filt m')
      with st True step b ne m show ?thesis by (simp add: Let_def)
    qed
  qed
qed

lemma place_replicas_spec:
  assumes "dfs_inv s" and "1 \<le> replication_factor s"
  shows "place_replicas s h c d (ranked_nodes s) 0 = fold (store_on h c d) (spec_choose_targets s) s"
proof -
  have "place_replicas s h c d (ranked_nodes s) 0 =
          fold (store_on h c d)
            (take (nat (replication_factor s)) (filter (accepting s) (ranked_nodes s))) s"
    using place_replicas_fold [OF ranked_nodes_distinct, of 0 s h c d] assms(2) by simp
  then show ?thesis
    by (simp add: spec_choose_targets_def ranked_nodes_spec [OF assms(1), symmetric])
qed

lemma upload_chunks_spec:
  "dfs_inv s \<Longrightarrow> 1 \<le> replication_factor s \<Longrightarrow> CHR ''_'' \<notin> set h \<Longrightarrow>
   upload_chunks s h ics = spec_upload_chunks s h ics"
proof (induction ics arbitrary: s)
  case Nil
  then show ?case by simp
next
  case (Cons ic ics)
  obtain i c where ic: "ic = (i, c)" by (cases ic)
  let ?s' = "place_replicas s h (make_chunk_id h i) c (ranked_nodes s) 0"
  have p: "dfs_inv ?s' \<and> length (nodes ?s') = length (nodes s)
           \<and> replication_factor ?s' = replication_factor s"
    using Cons.prems by (intro dfs_inv_place_replicas) (simp_all add: ranked_nodes_set)
  have "upload_chunks ?s' h ics = spec_upload_chunks ?s' h ics"
    using Cons.IH [of ?s'] p Cons.prems by simp
  then show ?case
    using place_replicas_spec [OF Cons.prems(1,2), of h "make_chunk_id h i" c]
    by (simp add: ic)
qed

text \<open>
  Claim C5. With a replication factor of at least one, \<open>upload_file\<close> places every chunk
  as the placement policy says: the nodes are ranked by ascending chunk count with ties in
  node-id order, the chunk is stored on the first \<open>replication_factor\<close> nodes of that
  ranking that accept it (all accepting nodes when there are fewer), and the ranking is
  taken again, on the state the previous chunk left, for every chunk.
\<close>

theorem upload_follows_placement_policy:
  "reachable s \<Longrightarrow> 1 \<le> replication_factor s \<Longrightarrow>
   fst (upload_file s filename content) =
     spec_upload_chunks s (file_hash_of filename) (enumerate 0 (split_chunks content))"
  by (simp add: upload_file_def Let_def upload_chunks_spec reachable_inv file_hash_no_underscore)

section \<open>The download\<close>

lemma fetch_chunks_map:
  "\<forall>r \<in> set recs. fst r < length (nodes s) \<Longrightarrow>
   \<exists>acc'. fetch_chunks s recs acc = Inr acc'
      \<and> map_of acc' = fetch_map s recs (map_of acc)
      \<and> (distinct (map fst acc) \<longrightarrow> distinct (map fst acc'))
      \<and> fst ` set acc' \<subseteq> fst ` set acc \<union> snd ` set recs"
proof (induction recs arbitrary: acc)
  case Nil
  then show ?case by simp
next
  case (Cons r recs)
  obtain nid cid where r: "r = (nid, cid)" by (cases r)
  have nid: "nid < length (nodes s)" using Cons.prems by (simp add: r)
  have rest: "\<forall>r \<in> set recs. fst r < length (nodes s)" using Cons.prems by simp
  show ?case
  proof (cases "answers s r")
    case False
    then have step: "fetch_chunks s (r # recs) acc = fetch_chunks s recs acc"
      using nid by (auto simp: r answers_def split: option.splits)
    from Cons.IH [OF rest, of acc] obtain acc' where
      a: "fetch_chunks s recs acc = Inr acc'" and b: "map_of acc' = fetch_map s recs (map_of acc)"
      and c: "distinct (map fst acc) \<longrightarrow> distinct (map fst acc')"
      and d: "fst ` set acc' \<subseteq> fst ` set acc \<union> snd ` set recs" by blast
    have "fetch_chunks s (r # recs) acc = Inr acc'" using step a by simp
    moreover have "map_of acc' = fetch_map s (r # recs) (map_of acc)" using b False by simp
    moreover have "fst ` set acc' \<subseteq> fst ` set acc \<union> snd ` set (r # recs)"
      using d by auto
    ultimately show ?thesis using c by blast
  next
    case True
    then obtain d where d: "retrieve_chunk (nodes s ! nid) cid = Some d" "d \<noteq> []"
      by (auto simp: r answers_def split: option.splits)
    let ?acc = "AList.update cid d acc"
    have step: "fetch_chunks s (r # recs) acc = fetch_chunks s recs ?acc"
      using nid d by (simp add: r)
    have m: "map_of ?acc = (map_of acc)(cid \<mapsto> d)" by (rule update_conv')
    have k: "fst ` set ?acc \<subseteq> insert cid (fst ` set acc)"
      using set_update_subset [of cid d acc] by auto
    have di: "distinct (map fst acc) \<longrightarrow> distinct (map fst ?acc)"
      by (simp add: distinct_update)
    from Cons.IH [OF rest, of ?acc] obtain acc' where
      a: "fetch_chunks s recs ?acc = Inr acc'" and b: "map_of acc' = fetch_map s recs (map_of ?acc)"
      and c: "distinct (map fst ?acc) \<longrightarrow> distinct (map fst acc')"
      and e: "fst ` set acc' \<subseteq> fst ` set ?acc \<union> snd ` set recs" by blast
    have "fetch_chunks s (r # recs) acc = Inr acc'" using step a by simp
    moreover have "map_of acc' = fetch_map s (r # recs) (map_of acc)"
      using b m True d by (simp add: r)
    moreover have "fst ` set acc' \<subseteq> fst ` set acc \<union> snd ` set (r # recs)"
      using e k by (auto simp: r)
    ultimately show ?thesis using c di by blast
  qed
qed

lemma fetch_map_last:
  "fetch_map s recs m cid =
     (if answering s recs cid = [] then m cid
      else Some (the (retrieve_chunk (nodes s ! fst (last (answering s recs cid))) cid)))"
proof (induction recs arbitrary: m)
  case Nil
  then show ?case by (simp add: answering_def)
next
  case (Cons r recs)
  show ?case
    by (simp add: Cons.IH answering_def)
qed

lemma sort_keys_wf:
  "\<forall>x \<in> set acc. \<exists>k. fst x = make_chunk_id h k \<Longrightarrow> CHR ''_'' \<notin> set h \<Longrightarrow>
   sort_keys acc = Inr (map (\<lambda>x. (cidx (fst x), x)) acc)"
  by (induction acc) (auto simp: chunk_index_make_chunk_id cidx_def)

lemma cidx_make_chunk_id: "CHR ''_'' \<notin> set h \<Longrightarrow> cidx (make_chunk_id h k) = k"
  by (simp add: cidx_def chunk_index_make_chunk_id)

lemma insort_key_map:
  "insort_key f (g x) (map g ys) = map g (insort_key (\<lambda>y. f (g y)) x ys)"
  by (induction ys) auto

lemma sort_key_map: "sort_key f (map g xs) = map g (sort_key (\<lambda>y. f (g y)) xs)"
  by (induction xs) (simp_all add: insort_key_map)

lemma distinct_map_insort_key:
  "distinct (map g (insort_key f x xs)) = (g x \<notin> g ` set xs \<and> distinct (map g xs))"
  by (induction xs) (auto simp: set_insort_key)

lemma distinct_map_sort_key: "distinct (map g (sort_key f xs)) = distinct (map g xs)"
  by (induction xs) (simp_all add: distinct_map_insort_key)

lemma sorted_list_of_set_sorted_distinct:
  "sorted xs \<Longrightarrow> distinct xs \<Longrightarrow> sorted_list_of_set (set xs) = xs"
  by (rule sorted_list_of_set.idem_if_sorted_distinct) simp_all

lemma finite_fetched: "finite {j. answering s recs (make_chunk_id h j) \<noteq> []}"
proof -
  have "{j. answering s recs (make_chunk_id h j) \<noteq> []} \<subseteq> make_chunk_id h -` (snd ` set recs)"
    by (force simp: answering_def filter_empty_conv)
  moreover have "finite (make_chunk_id h -` (snd ` set recs))"
    by (intro finite_vimageI) (auto simp: inj_on_def dest: make_chunk_id_inj)
  ultimately show ?thesis by (rule finite_subset)
qed

lemma last_answering:
  "answering s recs cid \<noteq> [] \<Longrightarrow> snd (last (answering s recs cid)) = cid"
proof -
  assume ne: "answering s recs cid \<noteq> []"
  then have "last (answering s recs cid) \<in> set (answering s recs cid)" by (rule last_in_set)
  then show ?thesis by (simp add: answering_def)
qed

lemma fetch_map_fetched:
  "answering s recs (make_chunk_id h j) \<noteq> [] \<Longrightarrow>
   fetch_map s recs Map.empty (make_chunk_id h j) = Some (fetched_chunk s h recs j)"
  using last_answering [of s recs "make_chunk_id h j"]
  by (simp add: fetch_map_last fetched_chunk_def case_prod_beta)

lemma fetch_map_none:
  "answering s recs cid = [] \<Longrightarrow> fetch_map s recs Map.empty cid = None"
  by (simp add: fetch_map_last)

lemma download_file_fetched:
  assumes inv: "dfs_inv s" and recs: "map_of (metadata s) h = Some recs"
  shows "download_file s h =
     (if fetched_indices s h recs = [] then Inr None
      else Inr (Some (concat (map (fetched_chunk s h recs) (fetched_indices s h recs)))))"
proof -
  let ?J = "{j. answering s recs (make_chunk_id h j) \<noteq> []}"
  have mem: "(h, recs) \<in> set (metadata s)" using recs by (rule map_of_SomeD)
  have wf: "\<forall>r \<in> set recs. CHR ''_'' \<notin> set h \<and> fst r < length (nodes s)
              \<and> (\<exists>k. snd r = make_chunk_id h k)"
    using inv mem by (fastforce simp: dfs_inv_def)
  then have "\<forall>r \<in> set recs. fst r < length (nodes s)" by blast
  from fetch_chunks_map [OF this, of "[]"] obtain acc where
    fc: "fetch_chunks s recs [] = Inr acc"
    and m: "map_of acc = fetch_map s recs Map.empty"
    and di: "distinct (map fst acc)"
    and keys: "fst ` set acc \<subseteq> snd ` set recs" by auto
  have key_iff: "k \<in> fst ` set acc \<longleftrightarrow> answering s recs k \<noteq> []" for k
  proof -
    have "k \<in> fst ` set acc \<longleftrightarrow> map_of acc k \<noteq> None"
      by (simp add: map_of_eq_None_iff)
    also have "\<dots> \<longleftrightarrow> answering s recs k \<noteq> []"
      by (simp add: m fetch_map_last)
    finally show ?thesis .
  qed
  show ?thesis
  proof (cases "acc = []")
    case True
    then have "?J = {}" using key_iff by auto
    then have "fetched_indices s h recs = []" by (simp add: fetched_indices_def)
    with True fc recs show ?thesis by (simp add: download_file_def)
  next
    case False
    then obtain x where x: "x \<in> set acc" by (cases acc) auto
    then have "fst x \<in> snd ` set recs" using keys by auto
    with wf have h: "CHR ''_'' \<notin> set h" by auto
    have wfk: "\<forall>x \<in> set acc. \<exists>k. fst x = make_chunk_id h k"
    proof
      fix y assume "y \<in> set acc"
      then have "fst y \<in> snd ` set recs" using keys by blast
      then obtain r where "r \<in> set recs" "fst y = snd r" by blast
      with wf show "\<exists>k. fst y = make_chunk_id h k" by metis
    qed
    let ?L = "sort_key (\<lambda>x. cidx (fst x)) acc"
    let ?js = "map (\<lambda>x. cidx (fst x)) ?L"
    have sk: "sort_keys acc = Inr (map (\<lambda>x. (cidx (fst x), x)) acc)"
      using wfk h by (rule sort_keys_wf)
    have sm: "sort_key fst (map (\<lambda>x. (cidx (fst x), x)) acc) = map (\<lambda>x. (cidx (fst x), x)) ?L"
      by (simp add: sort_key_map)
    have pr: "map (\<lambda>(k, cid, chunk). chunk) (map (\<lambda>x. (cidx (fst x), x)) ?L) = map snd ?L"
      by (simp add: case_prod_beta)
    have "download_file s h =
            Inr (Some (concat (map (\<lambda>(k, cid, chunk). chunk)
                                (sort_key fst (map (\<lambda>x. (cidx (fst x), x)) acc)))))"
      using recs fc False sk by (simp add: download_file_def)
    then have dl: "download_file s h = Inr (Some (concat (map snd ?L)))"
      by (simp only: sm pr)
    have setJ: "set ?js = ?J"
    proof (intro set_eqI iffI)
      fix j assume "j \<in> set ?js"
      then obtain y where y: "y \<in> set acc" "j = cidx (fst y)" by auto
      with wfk obtain k where "fst y = make_chunk_id h k" by blast
      with y h have "fst y = make_chunk_id h j" by (simp add: cidx_make_chunk_id)
      with y key_iff [of "make_chunk_id h j"] show "j \<in> ?J" by force
    next
      fix j assume "j \<in> ?J"
      then have "make_chunk_id h j \<in> fst ` set acc" using key_iff by simp
      then obtain y where "y \<in> set acc" "fst y = make_chunk_id h j" by auto
      with h show "j \<in> set ?js" by (force simp: cidx_make_chunk_id)
    qed
    have "inj_on cidx (fst ` set acc)"
    proof (rule inj_onI)
      fix a b assume "a \<in> fst ` set acc" "b \<in> fst ` set acc" "cidx a = cidx b"
      moreover have "\<exists>j. k = make_chunk_id h j" if "k \<in> fst ` set acc" for k
      proof -
        from that obtain y where "y \<in> set acc" "k = fst y" by blast
        with wfk show ?thesis by blast
      qed
      ultimately obtain ka kb where "a = make_chunk_id h ka" "b = make_chunk_id h kb" "cidx a = cidx b"
        by blast
      with h show "a = b" by (simp add: cidx_make_chunk_id)
    qed
    then have inj: "inj_on cidx (set (map fst ?L))" by simp
    have d1: "distinct (map fst ?L)" using di by (simp add: distinct_map_sort_key)
    have "distinct (map cidx (map fst ?L))"
      by (subst distinct_map) (intro conjI d1 inj)
    then have djs: "distinct ?js" by (simp add: comp_def)
    have sjs: "sorted ?js" by (rule sorted_sort_key)
    from sjs djs have "sorted_list_of_set (set ?js) = ?js"
      by (rule sorted_list_of_set_sorted_distinct)
    then have fi: "fetched_indices s h recs = ?js"
      unfolding fetched_indices_def setJ [symmetric] .
    have "snd y = fetched_chunk s h recs (cidx (fst y))" if "y \<in> set ?L" for y
    proof -
      from that have y: "y \<in> set acc" by simp
      with wfk obtain k where k: "fst y = make_chunk_id h k" by blast
      have "map_of acc (fst y) = Some (snd y)" using y di by simp
      moreover have "fst y \<in> fst ` set acc" using y by (rule imageI)
      then have "answering s recs (make_chunk_id h k) \<noteq> []"
        using key_iff [of "fst y"] k by simp
      ultimately show ?thesis
        using fetch_map_fetched [of s recs h k] h by (simp add: m k cidx_make_chunk_id)
    qed
    then have ms: "map snd ?L = map (fetched_chunk s h recs) ?js" by simp
    have ne: "?js \<noteq> []" using False by (cases acc) auto
    show ?thesis by (simp only: dl fi ms [symmetric] ne if_False)
  qed
qed

section \<open>Evaluating the operations on given states\<close>

lemma make_chunk_id_eq: "(make_chunk_id h a = make_chunk_id h b) = (a = b)"
  using make_chunk_id_inj by blast

lemma upt_0_1: "[0 ..< 1] = [0]" by (simp add: upt_rec)
lemma upt_0_2: "[0 ..< 2] = [0, 1]" by (simp add: upt_rec)
lemma upt_0_3: "[0 ..< 3] = [0, 1, 2]" by (simp add: upt_rec)
lemma upt_0_5: "[0 ..< 5] = [0, 1, 2, 3, 4]" by (simp add: upt_rec)

lemmas dfs_eval = upload_file_def Let_def split_chunks_def py_range_step_def py_slice_def
  chunk_size_def DFS_def Node_def enumerate_eq_zip ranked_nodes_def store_chunk_def
  md_append_def md_get_def fail_node_def fail_def download_file_def retrieve_chunk_def
  make_chunk_id_eq chunk_index_make_chunk_id file_hash_no_underscore
  upt_0_1 upt_0_2 upt_0_3 upt_0_5

section \<open>Downloads of partly available files\<close>

lemma fetched_indices_Nil:
  assumes inv: "dfs_inv s" and recs: "map_of (metadata s) h = Some recs"
  shows "fetched_indices s h recs = [] \<longleftrightarrow> (\<forall>r \<in> set recs. \<not> answers s r)"
proof -
  have mem: "(h, recs) \<in> set (metadata s)" using recs by (rule map_of_SomeD)
  have wf: "\<exists>k. snd r = make_chunk_id h k" if "r \<in> set recs" for r
    using inv mem that by (fastforce simp: dfs_inv_def)
  have "fetched_indices s h recs = [] \<longleftrightarrow> {j. answering s recs (make_chunk_id h j) \<noteq> []} = {}"
    by (simp add: fetched_indices_def finite_fetched)
  also have "\<dots> \<longleftrightarrow> (\<forall>r \<in> set recs. \<not> answers s r)"
  proof
    assume e: "{j. answering s recs (make_chunk_id h j) \<noteq> []} = {}"
    show "\<forall>r \<in> set recs. \<not> answers s r"
    proof
      fix r assume r: "r \<in> set recs"
      from wf [OF r] obtain k where k: "snd r = make_chunk_id h k" ..
      from e have "answering s recs (make_chunk_id h k) = []" by blast
      with r k show "\<not> answers s r" by (auto simp: answering_def filter_empty_conv)
    qed
  next
    assume "\<forall>r \<in> set recs. \<not> answers s r"
    then show "{j. answering s recs (make_chunk_id h j) \<noteq> []} = {}"
      by (auto simp: answering_def filter_empty_conv)
  qed
  finally show ?thesis .
qed

text \<open>
  Claim C2, as the code has it. For a file id known to the metadata, \<open>download_file\<close>
  returns \<open>None\<close> exactly when no record of the file answers; otherwise it returns the
  concatenation, in increasing sequence-number order, of the chunks that were fetched, one
  per sequence number with an answering record. Nothing checks that the sequence numbers
  are all there, so the bytes returned can be a part of the file.
\<close>

theorem download_returns_what_was_fetched:
  assumes "reachable s" and "map_of (metadata s) h = Some recs"
  shows "download_file s h =
     (if \<forall>r \<in> set recs. \<not> answers s r then Inr None
      else Inr (Some (concat (map (fetched_chunk s h recs) (fetched_indices s h recs)))))"
  using download_file_fetched [OF reachable_inv [OF assms(1)] assms(2)]
    fetched_indices_Nil [OF reachable_inv [OF assms(1)] assms(2)]
  by simp

theorem download_returns_what_was_fetched_witness:
  "reachable (fst (upload_file (DFS 1 1) ''f'' [1]))
   \<and> map_of (metadata (fst (upload_file (DFS 1 1) ''f'' [1]))) (file_hash_of ''f'')
       = Some [(0, make_chunk_id (file_hash_of ''f'') 0)]
   \<and> download_file (fst (upload_file (DFS 1 1) ''f'' [1])) (file_hash_of ''f'') =
     (if \<forall>r \<in> set [(0, make_chunk_id (file_hash_of ''f'') 0)].
           \<not> answers (fst (upload_file (DFS 1 1) ''f'' [1])) r
      then Inr None
      else Inr (Some (concat (map (fetched_chunk (fst (upload_file (DFS 1 1) ''f'' [1]))
                                     (file_hash_of ''f'') [(0, make_chunk_id (file_hash_of ''f'') 0)])
                                  (fetched_indices (fst (upload_file (DFS 1 1) ''f'' [1]))
                                     (file_hash_of ''f'') [(0, make_chunk_id (file_hash_of ''f'') 0)])))))"
proof -
  have r: "reachable (fst (upload_file (DFS 1 1) ''f'' [1]))"
    by (rule r_upload [OF r_init])
  have m: "map_of (metadata (fst (upload_file (DFS 1 1) ''f'' [1]))) (file_hash_of ''f'')
       = Some [(0, make_chunk_id (file_hash_of ''f'') 0)]"
    by (simp add: dfs_eval)
  from download_returns_what_was_fetched [OF r m] r m show ?thesis by blast
qed

text \<open>
  The claim as written fails: a file of two chunks is uploaded to five fresh nodes, the
  two nodes holding chunk 1 fail, and the download returns the 1024 bytes of chunk 0
  instead of \<open>None\<close>.
\<close>

theorem download_partial_counterexample:
  "md_get (metadata (fail_node (fail_node (fst (upload_file (DFS 5 2) ''f'' (replicate 1025 0))) 2) 3))
          (file_hash_of ''f'')
     = [(0, make_chunk_id (file_hash_of ''f'') 0), (1, make_chunk_id (file_hash_of ''f'') 0),
        (2, make_chunk_id (file_hash_of ''f'') 1), (3, make_chunk_id (file_hash_of ''f'') 1)]
   \<and> retrieve_chunk
        (nodes (fail_node (fail_node (fst (upload_file (DFS 5 2) ''f'' (replicate 1025 0))) 2) 3) ! 2)
        (make_chunk_id (file_hash_of ''f'') 1) = None
   \<and> retrieve_chunk
        (nodes (fail_node (fail_node (fst (upload_file (DFS 5 2) ''f'' (replicate 1025 0))) 2) 3) ! 3)
        (make_chunk_id (file_hash_of ''f'') 1) = None
   \<and> download_file (fail_node (fail_node (fst (upload_file (DFS 5 2) ''f'' (replicate 1025 0))) 2) 3)
        (file_hash_of ''f'') = Inr (Some (replicate 1024 0))"
  by (simp add: dfs_eval)

text \<open>
  On five fresh nodes with replication factor 2, chunk 0 of a two-chunk file goes to
  nodes 0 and 1 and chunk 1, ranked anew, to nodes 2 and 3.
\<close>

theorem upload_follows_placement_policy_witness:
  "reachable (DFS 5 2) \<and> 1 \<le> replication_factor (DFS 5 2)
   \<and> fst (upload_file (DFS 5 2) ''f'' (replicate 1025 0)) =
       spec_upload_chunks (DFS 5 2) (file_hash_of ''f'')
         (enumerate 0 (split_chunks (replicate 1025 0)))
   \<and> md_get (metadata (fst (upload_file (DFS 5 2) ''f'' (replicate 1025 0)))) (file_hash_of ''f'')
       = [(0, make_chunk_id (file_hash_of ''f'') 0), (1, make_chunk_id (file_hash_of ''f'') 0),
          (2, make_chunk_id (file_hash_of ''f'') 1), (3, make_chunk_id (file_hash_of ''f'') 1)]"
proof -
  have r: "reachable (DFS 5 2)" by (rule r_init)
  have f: "1 \<le> replication_factor (DFS 5 2)" by (simp add: DFS_def)
  have m: "md_get (metadata (fst (upload_file (DFS 5 2) ''f'' (replicate 1025 0)))) (file_hash_of ''f'')
       = [(0, make_chunk_id (file_hash_of ''f'') 0), (1, make_chunk_id (file_hash_of ''f'') 0),
          (2, make_chunk_id (file_hash_of ''f'') 1), (3, make_chunk_id (file_hash_of ''f'') 1)]"
    by (simp add: dfs_eval)
  from upload_follows_placement_policy [OF r f, of "''f''" "replicate 1025 0"] r f m
  show ?thesis by blast
qed

section \<open>Splitting into chunks\<close>

lemma concat_take_drop:
  "concat (map (\<lambda>k. take n (drop (k * n) xs)) [0 ..< m]) = take (m * n) xs"
proof (induction m)
  case 0
  then show ?case by simp
next
  case (Suc m)
  have "take (m * n) xs @ take n (drop (m * n) xs) = take (m * n + n) xs"
    by (simp add: take_add)
  with Suc show ?case by (simp add: add.commute)
qed

lemma ceil_div_bounds:
  fixes l n :: nat
  assumes "0 < n"
  shows "l \<le> ((l + n - 1) div n) * n" and "k < (l + n - 1) div n \<Longrightarrow> k * n < l"
proof -
  let ?q = "(l + n - 1) div n"
  have eq: "?q * n + (l + n - 1) mod n = l + n - 1" by simp
  have r: "(l + n - 1) mod n < n" using assms by simp
  show "l \<le> ?q * n" using eq r by linarith
  show "k * n < l" if "k < ?q"
  proof -
    from that have "Suc k \<le> ?q" by simp
    then have "Suc k * n \<le> ?q * n" by (rule mult_le_mono1)
    then have "k * n + n \<le> ?q * n" by simp
    with eq r assms show ?thesis by linarith
  qed
qed

lemma split_chunks_eq:
  "split_chunks content =
     map (\<lambda>k. take chunk_size (drop (k * chunk_size) content))
         [0 ..< (length content + chunk_size - 1) div chunk_size]"
  by (simp add: split_chunks_def py_range_step_def py_slice_def comp_def)

lemma chunk_size_pos: "0 < chunk_size"
  by (simp add: chunk_size_def)

lemma concat_split_chunks: "concat (split_chunks content) = content"
  using ceil_div_bounds(1) [OF chunk_size_pos, of "length content"]
  by (simp add: split_chunks_eq concat_take_drop)

lemma split_chunks_nonempty: "c \<in> set (split_chunks content) \<Longrightarrow> c \<noteq> []"
proof -
  assume "c \<in> set (split_chunks content)"
  then obtain k where k: "k < (length content + chunk_size - 1) div chunk_size"
    and c: "c = take chunk_size (drop (k * chunk_size) content)"
    by (auto simp: split_chunks_eq)
  from ceil_div_bounds(2) [OF chunk_size_pos k] have "k * chunk_size < length content" .
  with c chunk_size_pos show ?thesis by simp
qed

lemma split_chunks_eq_Nil: "split_chunks content = [] \<longleftrightarrow> content = []"
  using concat_split_chunks [of content] by (auto simp: split_chunks_Nil)

section \<open>What an upload leaves behind\<close>

lemma place_replicas_targets:
  "distinct rs \<Longrightarrow>
   \<exists>ts. place_replicas s h c d rs placed = fold (store_on h c d) ts s
      \<and> distinct ts \<and> set ts \<subseteq> {r \<in> set rs. accepting s r}
      \<and> ((\<exists>g \<in> set rs. accepting s g) \<longrightarrow> ts \<noteq> [])"
proof (induction rs arbitrary: s placed)
  case Nil
  show ?case by (rule exI [of _ "[]"]) simp
next
  case (Cons r rs)
  obtain n' b where st: "store_chunk (nodes s ! r) c d = (n', b)"
    by (cases "store_chunk (nodes s ! r) c d")
  have b: "b = accepting s r" using accepting_store [of s r c d] st by simp
  have drs: "distinct rs" and rn: "r \<notin> set rs" using Cons.prems by simp_all
  show ?case
  proof (cases b)
    case False
    from Cons.IH [OF drs, of s placed] obtain ts where
      ts: "place_replicas s h c d rs placed = fold (store_on h c d) ts s"
        "distinct ts" "set ts \<subseteq> {r \<in> set rs. accepting s r}"
        "(\<exists>g \<in> set rs. accepting s g) \<longrightarrow> ts \<noteq> []" by blast
    have "place_replicas s h c d (r # rs) placed = fold (store_on h c d) ts s"
      using st False ts(1) by simp
    moreover have "set ts \<subseteq> {x \<in> set (r # rs). accepting s x}" using ts(3) by auto
    moreover have "(\<exists>g \<in> set (r # rs). accepting s g) \<longrightarrow> ts \<noteq> []"
      using ts(4) False b by auto
    ultimately show ?thesis using ts(2) by blast
  next
    case True
    let ?s' = "store_on h c d r s"
    have step: "s\<lparr>nodes := (nodes s)[r := n'],
                 metadata := md_append (metadata s) h (node_id n', c)\<rparr> = ?s'"
      by (rule store_step_eq [OF st])
    have acc: "accepting ?s' x = accepting s x" if "x \<in> set rs" for x
      using that rn by (intro accepting_store_on_other) auto
    show ?thesis
    proof (cases "placed + 1 = replication_factor s")
      case eq: True
      have "place_replicas s h c d (r # rs) placed = fold (store_on h c d) [r] s"
        using st True step eq by simp
      moreover have "set [r] \<subseteq> {x \<in> set (r # rs). accepting s x}" using True b by simp
      ultimately show ?thesis by (intro exI [of _ "[r]"]) simp
    next
      case ne: False
      from Cons.IH [OF drs, of ?s' "placed + 1"] obtain ts where
        ts: "place_replicas ?s' h c d rs (placed + 1) = fold (store_on h c d) ts ?s'"
          "distinct ts" "set ts \<subseteq> {r \<in> set rs. accepting ?s' r}" by blast
      have "place_replicas s h c d (r # rs) placed = fold (store_on h c d) (r # ts) s"
        using st True step ne ts(1) by (simp add: Let_def)
      moreover have "distinct (r # ts)" using ts(2,3) rn by auto
      moreover have "set (r # ts) \<subseteq> {x \<in> set (r # rs). accepting s x}"
        using ts(3) acc True b by auto
      ultimately show ?thesis by (intro exI [of _ "r # ts"]) simp
    qed
  qed
qed

lemma md_get_md_append:
  "md_get (md_append md h r) h' = md_get md h' @ (if h' = h then [r] else [])"
  by (simp add: md_get_def md_append_def update_conv')

lemma store_on_node_id: "node_id (nodes (store_on h c d r s) ! t) = node_id (nodes s ! t)"
proof (cases "r < length (nodes s)")
  case True
  then show ?thesis by (simp add: store_on_def nth_list_update store_chunk_fields)
next
  case False
  then show ?thesis by (simp add: store_on_def list_update_beyond)
qed

lemma fold_store_on_node_id:
  "node_id (nodes (fold (store_on h c d) ts s) ! t) = node_id (nodes s ! t)"
  by (induction ts arbitrary: s) (simp_all add: store_on_node_id)

lemma fold_store_on_md:
  "md_get (metadata (fold (store_on h c d) ts s)) h' =
     md_get (metadata s) h' @ (if h' = h then map (\<lambda>t. (node_id (nodes s ! t), c)) ts else [])"
proof (induction ts arbitrary: s)
  case Nil
  then show ?case by simp
next
  case (Cons t ts)
  have "md_get (metadata (store_on h c d t s)) h' =
          md_get (metadata s) h' @ (if h' = h then [(node_id (nodes s ! t), c)] else [])"
    by (simp add: store_on_def md_get_md_append)
  then show ?case
    by (simp add: Cons.IH store_on_node_id)
qed

lemma fold_store_on_nodes:
  "distinct ts \<Longrightarrow> \<forall>t \<in> set ts. t < length (nodes s) \<Longrightarrow>
   length (nodes (fold (store_on h c d) ts s)) = length (nodes s)
   \<and> (\<forall>r < length (nodes s).
         nodes (fold (store_on h c d) ts s) ! r =
           (if r \<in> set ts then fst (store_chunk (nodes s ! r) c d) else nodes s ! r))"
proof (induction ts arbitrary: s)
  case Nil
  then show ?case by simp
next
  case (Cons t ts)
  let ?s' = "store_on h c d t s"
  have len: "length (nodes ?s') = length (nodes s)" by (simp add: store_on_fields)
  have t: "t < length (nodes s)" "t \<notin> set ts" "distinct ts" using Cons.prems by simp_all
  have "\<forall>x \<in> set ts. x < length (nodes ?s')" using Cons.prems len by simp
  from Cons.IH [OF t(3) this] have
    IH: "length (nodes (fold (store_on h c d) ts ?s')) = length (nodes ?s')"
      "\<forall>r < length (nodes ?s').
         nodes (fold (store_on h c d) ts ?s') ! r =
           (if r \<in> set ts then fst (store_chunk (nodes ?s' ! r) c d) else nodes ?s' ! r)"
    by simp_all
  have nth: "nodes ?s' ! r = (if r = t then fst (store_chunk (nodes s ! t) c d) else nodes s ! r)"
    if "r < length (nodes s)" for r
    using that t(1) by (simp add: store_on_def nth_list_update)
  show ?case
  proof (intro conjI allI impI)
    show "length (nodes (fold (store_on h c d) (t # ts) s)) = length (nodes s)"
      using IH(1) len by simp
  next
    fix r assume r: "r < length (nodes s)"
    then have "nodes (fold (store_on h c d) ts ?s') ! r =
           (if r \<in> set ts then fst (store_chunk (nodes ?s' ! r) c d) else nodes ?s' ! r)"
      using IH(2) len by simp
    then show "nodes (fold (store_on h c d) (t # ts) s) ! r =
           (if r \<in> set (t # ts) then fst (store_chunk (nodes s ! r) c d) else nodes s ! r)"
      using nth [OF r] t(2) by auto
  qed
qed

lemma retrieve_store_other:
  "c' \<noteq> c \<Longrightarrow> retrieve_chunk (fst (store_chunk n c d)) c' = retrieve_chunk n c'"
  by (simp add: retrieve_chunk_def store_chunk_def update_conv')

lemma retrieve_store_same:
  "active n \<Longrightarrow> length (storage n) < capacity n \<Longrightarrow>
   retrieve_chunk (fst (store_chunk n c d)) c = Some d"
  by (simp add: retrieve_chunk_def store_chunk_def update_conv')

lemma store_chunk_length_Suc:
  "length (storage (fst (store_chunk n c d))) \<le> Suc (length (storage n))"
  using length_alist_update [of c d "storage n"] by (auto simp: store_chunk_def)

lemma place_chunk_stored:
  assumes inv: "dfs_inv s" and h: "CHR ''_'' \<notin> set h"
    and st: "stored_up_to s h cs i"
    and g: "g < length (nodes s)" "accepting s g"
  defines "s' \<equiv> place_replicas s h (make_chunk_id h i) (cs ! i) (ranked_nodes s) 0"
  shows "stored_up_to s' h cs (Suc i)"
    and "active (nodes s' ! g) = active (nodes s ! g)"
    and "capacity (nodes s' ! g) = capacity (nodes s ! g)"
    and "length (storage (nodes s' ! g)) \<le> Suc (length (storage (nodes s ! g)))"
proof -
  let ?c = "make_chunk_id h i"
  let ?d = "cs ! i"
  from place_replicas_targets [where rs = "ranked_nodes s" and s = s and h = h and c = ?c
      and d = ?d and placed = 0, OF ranked_nodes_distinct] obtain ts where
    eq: "s' = fold (store_on h ?c ?d) ts s" and dts: "distinct ts"
    and sub: "set ts \<subseteq> {r \<in> set (ranked_nodes s). accepting s r}"
    and ne: "(\<exists>g \<in> set (ranked_nodes s). accepting s g) \<longrightarrow> ts \<noteq> []"
    unfolding s'_def by blast
  have tlt: "\<forall>t \<in> set ts. t < length (nodes s)" using sub by (auto simp: ranked_nodes_set)
  have tacc: "\<forall>t \<in> set ts. accepting s t" using sub by auto
  have "ts \<noteq> []" using ne g by (auto simp: ranked_nodes_set)
  have ids: "\<forall>t < length (nodes s). node_id (nodes s ! t) = t"
    using inv by (simp add: dfs_inv_def)
  from fold_store_on_nodes [OF dts tlt, of h ?c ?d] have
    nth: "\<And>r. r < length (nodes s) \<Longrightarrow>
         nodes s' ! r = (if r \<in> set ts then fst (store_chunk (nodes s ! r) ?c ?d) else nodes s ! r)"
    unfolding eq by blast
  have "map (\<lambda>t. (node_id (nodes s ! t), ?c)) ts = map (\<lambda>t. (t, ?c)) ts"
    using tlt ids by simp
  then have md: "md_get (metadata s') h = md_get (metadata s) h @ map (\<lambda>t. (t, ?c)) ts"
    unfolding eq by (simp add: fold_store_on_md)
  have old: "\<exists>j < Suc i. snd r = make_chunk_id h j
          \<and> retrieve_chunk (nodes s' ! fst r) (snd r) = Some (cs ! j)"
    if "r \<in> set (md_get (metadata s) h)" for r
  proof -
    from st that obtain j where j: "j < i" "snd r = make_chunk_id h j"
      "retrieve_chunk (nodes s ! fst r) (snd r) = Some (cs ! j)"
      unfolding stored_up_to_def by blast
    have lt: "fst r < length (nodes s)" using md_get_inv [OF inv that] by simp
    have "make_chunk_id h j \<noteq> ?c" using j(1) by (simp add: make_chunk_id_eq)
    then have "retrieve_chunk (nodes s' ! fst r) (snd r) = retrieve_chunk (nodes s ! fst r) (snd r)"
      using nth [OF lt] j(2) by (simp add: retrieve_store_other)
    with j have "j < Suc i \<and> snd r = make_chunk_id h j
          \<and> retrieve_chunk (nodes s' ! fst r) (snd r) = Some (cs ! j)" by simp
    then show ?thesis by blast
  qed
  have new: "\<exists>j < Suc i. snd r = make_chunk_id h j
          \<and> retrieve_chunk (nodes s' ! fst r) (snd r) = Some (cs ! j)"
    if "r \<in> set (map (\<lambda>t. (t, ?c)) ts)" for r
  proof -
    from that obtain t where t: "t \<in> set ts" "r = (t, ?c)" by auto
    then have "t < length (nodes s)" "accepting s t" using tlt tacc by auto
    then have "retrieve_chunk (nodes s' ! t) ?c = Some ?d"
      using nth [of t] t(1) by (simp add: accepting_def retrieve_store_same)
    with t have "i < Suc i \<and> snd r = make_chunk_id h i
          \<and> retrieve_chunk (nodes s' ! fst r) (snd r) = Some (cs ! i)" by simp
    then show ?thesis by blast
  qed
  have cover: "\<exists>r \<in> set (md_get (metadata s') h). snd r = make_chunk_id h j" if "j < Suc i" for j
  proof (cases "j < i")
    case True
    with st obtain r where "r \<in> set (md_get (metadata s) h)" "snd r = make_chunk_id h j"
      unfolding stored_up_to_def by blast
    then show ?thesis unfolding md by auto
  next
    case False
    with that have "j = i" by simp
    moreover from \<open>ts \<noteq> []\<close> obtain t where "t \<in> set ts" by (cases ts) auto
    ultimately show ?thesis unfolding md by force
  qed
  show "stored_up_to s' h cs (Suc i)"
    unfolding stored_up_to_def
  proof (intro conjI ballI allI impI)
    fix r assume "r \<in> set (md_get (metadata s') h)"
    then consider "r \<in> set (md_get (metadata s) h)" | "r \<in> set (map (\<lambda>t. (t, ?c)) ts)"
      unfolding md by auto
    then show "\<exists>j < Suc i. snd r = make_chunk_id h j
          \<and> retrieve_chunk (nodes s' ! fst r) (snd r) = Some (cs ! j)"
      using old new by cases blast+
  next
    fix j assume "j < Suc i"
    then show "\<exists>r \<in> set (md_get (metadata s') h). snd r = make_chunk_id h j" by (rule cover)
  qed
  show "active (nodes s' ! g) = active (nodes s ! g)"
    using nth [OF g(1)] by (simp add: store_chunk_fields)
  show "capacity (nodes s' ! g) = capacity (nodes s ! g)"
    using nth [OF g(1)] by (simp add: store_chunk_fields)
  show "length (storage (nodes s' ! g)) \<le> Suc (length (storage (nodes s ! g)))"
    using nth [OF g(1)] store_chunk_length_Suc [of "nodes s ! g" ?c ?d] by simp
qed

lemma upload_chunks_stored:
  "dfs_inv s \<Longrightarrow> CHR ''_'' \<notin> set h \<Longrightarrow> drop i cs = rest \<Longrightarrow> i \<le> length cs \<Longrightarrow>
   stored_up_to s h cs i \<Longrightarrow> g < length (nodes s) \<Longrightarrow> active (nodes s ! g) \<Longrightarrow>
   length (storage (nodes s ! g)) + length rest \<le> capacity (nodes s ! g) \<Longrightarrow>
   stored_up_to (upload_chunks s h (enumerate i rest)) h cs (length cs)"
proof (induction rest arbitrary: s i)
  case Nil
  then have "i = length cs" by simp
  with Nil show ?case by simp
next
  case (Cons c rest)
  let ?s' = "place_replicas s h (make_chunk_id h i) (cs ! i) (ranked_nodes s) 0"
  from Cons.prems(3) have i: "i < length cs"
    by (metis drop_all leI list.distinct(1))
  with Cons.prems(3) have c: "c = cs ! i" and dr: "drop (Suc i) cs = rest"
    by (simp_all add: Cons_nth_drop_Suc [symmetric])
  have acc: "accepting s g" using Cons.prems(7,8) by (simp add: accepting_def)
  note pc = place_chunk_stored [OF Cons.prems(1,2,5,6) acc]
  have inv': "dfs_inv ?s'" and len': "length (nodes ?s') = length (nodes s)"
    using dfs_inv_place_replicas [of s "ranked_nodes s" h i "cs ! i" 0] Cons.prems(1,2)
    by (simp_all add: ranked_nodes_set)
  have g': "g < length (nodes ?s')" using Cons.prems(6) len' by simp
  have a': "active (nodes ?s' ! g)" using pc(2) Cons.prems(7) by simp
  have r': "length (storage (nodes ?s' ! g)) + length rest \<le> capacity (nodes ?s' ! g)"
    using pc(3,4) Cons.prems(8) by simp
  from Cons.IH [OF inv' Cons.prems(2) dr _ pc(1) g' a' r'] i
  have "stored_up_to (upload_chunks ?s' h (enumerate (Suc i) rest)) h cs (length cs)" by simp
  then show ?case by (simp add: c)
qed

lemma download_stored:
  assumes inv: "dfs_inv s" and st: "stored_up_to s h cs (length cs)"
    and ne: "cs \<noteq> []" and nonempty: "\<forall>c \<in> set cs. c \<noteq> []"
  shows "download_file s h = Inr (Some (concat cs))"
proof -
  let ?recs = "md_get (metadata s) h"
  let ?n = "length cs"
  have rec: "\<exists>j < ?n. snd r = make_chunk_id h j
      \<and> retrieve_chunk (nodes s ! fst r) (snd r) = Some (cs ! j)" if "r \<in> set ?recs" for r
    using st that unfolding stored_up_to_def by blast
  have cov: "\<exists>r \<in> set ?recs. snd r = make_chunk_id h j" if "j < ?n" for j
    using st that unfolding stored_up_to_def by blast
  from ne cov [of 0] have "?recs \<noteq> []" by auto
  then have m: "map_of (metadata s) h = Some ?recs"
    by (auto simp: md_get_def split: option.splits)
  have get: "retrieve_chunk (nodes s ! fst r) (snd r) = Some (cs ! j)"
    if "r \<in> set ?recs" "snd r = make_chunk_id h j" for r j
  proof -
    from rec [OF that(1)] obtain j' where "snd r = make_chunk_id h j'"
      "retrieve_chunk (nodes s ! fst r) (snd r) = Some (cs ! j')" by blast
    with that(2) show ?thesis by (simp add: make_chunk_id_eq)
  qed
  have ans: "answering s ?recs (make_chunk_id h j) \<noteq> [] \<longleftrightarrow> j < ?n" for j
  proof
    assume "answering s ?recs (make_chunk_id h j) \<noteq> []"
    then obtain r where "r \<in> set ?recs" "snd r = make_chunk_id h j"
      by (auto simp: answering_def filter_empty_conv)
    with rec [of r] show "j < ?n" by (auto simp: make_chunk_id_eq)
  next
    assume j: "j < ?n"
    from cov [OF j] obtain r where r: "r \<in> set ?recs" "snd r = make_chunk_id h j" by blast
    have "cs ! j \<noteq> []" using nonempty j by simp
    with get [OF r] have "answers s r" by (simp add: answers_def)
    with r show "answering s ?recs (make_chunk_id h j) \<noteq> []"
      by (auto simp: answering_def filter_empty_conv)
  qed
  have "{j. answering s ?recs (make_chunk_id h j) \<noteq> []} = {0 ..< ?n}"
    by (rule set_eqI) (simp add: ans)
  then have fi: "fetched_indices s h ?recs = [0 ..< ?n]"
    unfolding fetched_indices_def by (simp only: sorted_list_of_set_range)
  have fc: "fetched_chunk s h ?recs j = cs ! j" if "j < ?n" for j
  proof -
    let ?a = "answering s ?recs (make_chunk_id h j)"
    from that have "?a \<noteq> []" by (simp add: ans)
    then have "last ?a \<in> set ?a" by (rule last_in_set)
    then have "last ?a \<in> set ?recs" "snd (last ?a) = make_chunk_id h j"
      by (simp_all add: answering_def)
    from get [OF this] show ?thesis
      by (simp add: fetched_chunk_def case_prod_beta)
  qed
  then have "map (fetched_chunk s h ?recs) [0 ..< ?n] = map ((!) cs) [0 ..< ?n]" by simp
  then have mp: "map (fetched_chunk s h ?recs) [0 ..< ?n] = cs" by (simp only: map_nth)
  have "[0 ..< ?n] \<noteq> []" using ne by simp
  with download_file_fetched [OF inv m] show ?thesis
    by (simp only: fi mp if_False)
qed

text \<open>
  Claim C1, as the code has it. In a reachable state where the file id has no metadata
  entry yet and some active node has room for every chunk of the content, uploading
  non-empty content and then downloading the returned id gives back exactly the content.
\<close>

theorem upload_then_download:
  assumes "reachable s"
    and "map_of (metadata s) (file_hash_of filename) = None"
    and "content \<noteq> []"
    and "\<exists>n \<in> set (nodes s).
           active n \<and> length (storage n) + length (split_chunks content) \<le> capacity n"
  shows "download_file (fst (upload_file s filename content))
           (snd (upload_file s filename content)) = Inr (Some content)"
proof -
  let ?h = "file_hash_of filename"
  let ?cs = "split_chunks content"
  let ?s' = "upload_chunks s ?h (enumerate 0 ?cs)"
  have inv: "dfs_inv s" using assms(1) by (rule reachable_inv)
  have h: "CHR ''_'' \<notin> set ?h" by (rule file_hash_no_underscore)
  from assms(4) obtain g where g: "g < length (nodes s)" "active (nodes s ! g)"
    "length (storage (nodes s ! g)) + length ?cs \<le> capacity (nodes s ! g)"
    by (auto simp: in_set_conv_nth)
  have "md_get (metadata s) ?h = []" using assms(2) by (simp add: md_get_def)
  then have st0: "stored_up_to s ?h ?cs 0" by (simp add: stored_up_to_def)
  have st: "stored_up_to ?s' ?h ?cs (length ?cs)"
    by (rule upload_chunks_stored [OF inv h _ _ st0 g]) simp_all
  have inv': "dfs_inv ?s'" using dfs_inv_upload_chunks [OF inv h] by simp
  have ne: "?cs \<noteq> []" using assms(3) by (simp add: split_chunks_eq_Nil)
  have "download_file ?s' ?h = Inr (Some (concat ?cs))"
    using inv' st ne by (rule download_stored) (simp add: split_chunks_nonempty)
  then show ?thesis
    by (simp add: upload_file_def Let_def concat_split_chunks)
qed

theorem upload_then_download_witness:
  "reachable (DFS 5 2)
   \<and> map_of (metadata (DFS 5 2)) (file_hash_of ''f'') = None
   \<and> download_file (fst (upload_file (DFS 5 2) ''f'' [1, 2, 3]))
        (snd (upload_file (DFS 5 2) ''f'' [1, 2, 3])) = Inr (Some [1, 2, 3])"
proof -
  have r: "reachable (DFS 5 2)" by (rule r_init)
  have m: "map_of (metadata (DFS 5 2)) (file_hash_of ''f'') = None" by (simp add: DFS_def)
  have c: "[1, 2, 3] \<noteq> ([] :: bytes)" by simp
  have n: "\<exists>n \<in> set (nodes (DFS 5 2)).
     active n \<and> length (storage n) + length (split_chunks [1, 2, 3]) \<le> capacity n"
    by (simp add: dfs_eval)
  from upload_then_download [OF r m c n] r m show ?thesis by blast
qed

lemma upload_file_snd: "snd (upload_file s filename content) = file_hash_of filename"
  by (simp add: upload_file_def Let_def)

text \<open>
  The claim as written fails in three ways: empty content downloads as \<open>None\<close>; with the
  only node failed before the upload nothing is stored and the download is \<open>None\<close>; and
  after a two-chunk upload, a one-chunk upload under the same name downloads with the old
  second chunk still attached.
\<close>

theorem upload_then_download_counterexample:
  "download_file (fst (upload_file (DFS 5 2) ''f'' []))
      (snd (upload_file (DFS 5 2) ''f'' [])) = Inr None
   \<and> download_file (fst (upload_file (fail_node (DFS 1 1) 0) ''f'' [1]))
      (snd (upload_file (fail_node (DFS 1 1) 0) ''f'' [1])) = Inr None
   \<and> download_file
        (fst (upload_file (fst (upload_file (DFS 5 2) ''f'' (replicate 1025 0))) ''f'' [7]))
        (snd (upload_file (fst (upload_file (DFS 5 2) ''f'' (replicate 1025 0))) ''f'' [7]))
      = Inr (Some [7, 0])"
  unfolding upload_file_snd by (simp add: dfs_eval)

end
